theory Spec2Isabelle
  imports Main "HOL-Library.Word"
begin

unbundle bit_operations_syntax

section \<open>Machine types and constants\<close>

text \<open>
  The embedding follows \<^verbatim>\<open>src/Engine/VM.cpp\<close> on x86-64: \<^verbatim>\<open>rword\<close> is a 64-bit word,
  event ids are \<^verbatim>\<open>uint32_t\<close>, instruction and sequence ids are \<^verbatim>\<open>uint16_t\<close>. All
  arithmetic on them wraps, as in the source.
\<close>

type_synonym rword = "64 word"
type_synonym u32 = "32 word"
type_synonym u16 = "16 word"
type_synonym u8 = "8 word"

text \<open>\<^verbatim>\<open>#define EVENTID_VIRTCB_MASK (1UL << 31)\<close>\<close>

definition EVENTID_VIRTCB_MASK :: u32 where
  "EVENTID_VIRTCB_MASK = push_bit 31 1"

text \<open>
  Modelled from the spec: the sentinel \<^verbatim>\<open>VMError::INVALID_EVENTID\<close> (declared in
  \<^verbatim>\<open>QBDI/Errors.h\<close>, which is not among the sources). The spec only says that a sentinel
  denotes failure; the header gives it all 32 bits set.
\<close>

definition INVALID_EVENTID :: u32 where
  "INVALID_EVENTID = 0xFFFFFFFF"

text \<open>
  Modelled from the spec: the enumeration \<^verbatim>\<open>MemoryAccessType\<close> (declared in
  \<^verbatim>\<open>QBDI/Callback.h\<close>): a bit mask with read = 1, write = 2 and read-write = 3. The
  source tests it with \<^verbatim>\<open>&\<close> and \<^verbatim>\<open>==\<close>, so it is kept as a word.
\<close>

type_synonym MemoryAccessType = u32

definition MEMORY_READ :: MemoryAccessType where "MEMORY_READ = 1"
definition MEMORY_WRITE :: MemoryAccessType where "MEMORY_WRITE = 2"
definition MEMORY_READ_WRITE :: MemoryAccessType where "MEMORY_READ_WRITE = 3"

text \<open>
  Modelled from the spec: the enumeration \<^verbatim>\<open>VMAction\<close> with its numeric values
  \<^verbatim>\<open>CONTINUE\<close> (0), \<^verbatim>\<open>BREAK_TO_VM\<close> (1), \<^verbatim>\<open>STOP\<close> (2). The gates compare actions with
  \<^verbatim>\<open>ret > action\<close>, which is the comparison of these numbers.
\<close>

datatype VMAction = CONTINUE | BREAK_TO_VM | STOP

fun VMAction_val :: "VMAction \<Rightarrow> nat" where
  "VMAction_val CONTINUE = 0"
| "VMAction_val BREAK_TO_VM = 1"
| "VMAction_val STOP = 2"

section \<open>Ranges and range sets\<close>

text \<open>
  Modelled from the spec: \<^verbatim>\<open>Range<rword>\<close> and \<^verbatim>\<open>RangeSet<rword>\<close> (declared in
  \<^verbatim>\<open>QBDI/Range.h\<close>, not among the sources). The spec describes a half-open interval
  algebra and a range set kept as canonical sorted disjoint half-open intervals, where
  \<^verbatim>\<open>add\<close> merges. An interval whose end is not above its start is empty and adds
  nothing.
\<close>

record Range_rword =
  rstart :: rword
  rend :: rword

type_synonym RangeSet_rword = "Range_rword list"

definition Range_ctor :: "rword \<Rightarrow> rword \<Rightarrow> Range_rword" where
  "Range_ctor s e = \<lparr>rstart = s, rend = e\<rparr>"

definition Range_overlaps :: "Range_rword \<Rightarrow> Range_rword \<Rightarrow> bool" where
  "Range_overlaps r t = (rstart r < rend t \<and> rstart t < rend r)"

fun RangeSet_insert :: "Range_rword \<Rightarrow> RangeSet_rword \<Rightarrow> RangeSet_rword" where
  "RangeSet_insert r [] = [r]"
| "RangeSet_insert r (x # xs) =
     (if rend r < rstart x then r # x # xs
      else if rend x < rstart r then x # RangeSet_insert r xs
      else RangeSet_insert
             \<lparr>rstart = min (rstart r) (rstart x), rend = max (rend r) (rend x)\<rparr> xs)"

definition RangeSet_add :: "Range_rword \<Rightarrow> RangeSet_rword \<Rightarrow> RangeSet_rword" where
  "RangeSet_add r rs = (if rend r \<le> rstart r then rs else RangeSet_insert r rs)"

definition RangeSet_overlaps :: "RangeSet_rword \<Rightarrow> Range_rword \<Rightarrow> bool" where
  "RangeSet_overlaps rs t = list_ex (\<lambda>r. Range_overlaps r t) rs"

text \<open>The addresses a range set covers.\<close>

definition RangeSet_covers :: "RangeSet_rword \<Rightarrow> rword \<Rightarrow> bool" where
  "RangeSet_covers rs p = list_ex (\<lambda>r. rstart r \<le> p \<and> p < rend r) rs"

text \<open>Every interval of a range set is non-empty.\<close>

definition RangeSet_nonempty :: "RangeSet_rword \<Rightarrow> bool" where
  "RangeSet_nonempty rs = list_all (\<lambda>r. rstart r < rend r) rs"

section \<open>Memory accesses and callbacks\<close>

text \<open>
  Modelled from the spec: the struct \<^verbatim>\<open>MemoryAccess\<close> (declared in
  \<^verbatim>\<open>QBDI/Callback.h\<close>), with the fields the spec names: address, size, value and type.
  The size is a \<^verbatim>\<open>uint16_t\<close>.
\<close>

record MemoryAccess =
  accessAddress :: rword
  accessValue :: rword
  accessSize :: u16
  accessType :: MemoryAccessType

text \<open>
  A \<^verbatim>\<open>void *\<close> argument is a user pointer (an address, 0 for \<^verbatim>\<open>nullptr\<close>), the address
  of the VM's own vector \<^verbatim>\<open>memCBInfos\<close> (what the gates receive), or the address of an
  \<^verbatim>\<open>InstrCBInfo\<close> allocated by \<^verbatim>\<open>addInstrRule\<close>.
\<close>

record InstrCBInfo =
  icb_range :: Range_rword
  icb_cbk :: "nat option"
  icb_type :: u32
  icb_data :: rword

datatype voidptr = UserPtr rword | MemCBInfosPtr | InstrCBInfoPtr InstrCBInfo

text \<open>
  Function pointers. An \<^verbatim>\<open>InstCallback\<close> is one of the three static functions of
  \<^verbatim>\<open>VM.cpp\<close> or a user function, named by a number; \<^verbatim>\<open>nullptr\<close> is \<open>None\<close> at the
  interface. Registry entries hold the pointer after the null check.
\<close>

datatype InstCallback =
  UserInstCallback nat | memReadGate_ptr | memWriteGate_ptr | stopCallback_ptr

datatype InstrRuleCallback = UserInstrRuleCallback nat | InstrCBGateC_ptr

record MemCBInfo =
  cb_type :: MemoryAccessType
  cb_range :: Range_rword
  cbk :: InstCallback
  cb_data :: voidptr

section \<open>The memory gates\<close>

text \<open>
  The first loop of \<^verbatim>\<open>memReadGate\<close>: the range set of the read accesses of the
  instruction. \<^verbatim>\<open>accessAddress + size\<close> is computed in \<^verbatim>\<open>rword\<close>.
\<close>

definition accessRange :: "MemoryAccess \<Rightarrow> Range_rword" where
  "accessRange a = Range_ctor (accessAddress a) (accessAddress a + ucast (accessSize a))"

fun gate_readRange :: "MemoryAccess list \<Rightarrow> RangeSet_rword \<Rightarrow> RangeSet_rword" where
  "gate_readRange [] readRange = readRange"
| "gate_readRange (a # as) readRange =
     gate_readRange as
       (if accessType a AND MEMORY_READ \<noteq> 0 then RangeSet_add (accessRange a) readRange
        else readRange)"

text \<open>Address \<open>p\<close> lies in the bytes of a read access.\<close>

definition read_hits :: "MemoryAccess \<Rightarrow> rword \<Rightarrow> bool" where
  "read_hits a p = (accessType a AND MEMORY_READ \<noteq> 0 \<and>
     accessAddress a \<le> p \<and> p < accessAddress a + ucast (accessSize a))"

fun gate_writeRange :: "MemoryAccess list \<Rightarrow> RangeSet_rword \<Rightarrow> RangeSet_rword" where
  "gate_writeRange [] writeRange = writeRange"
| "gate_writeRange (a # as) writeRange =
     gate_writeRange as
       (if accessType a AND MEMORY_WRITE \<noteq> 0 then RangeSet_add (accessRange a) writeRange
        else writeRange)"

text \<open>Address \<open>p\<close> lies in the bytes of a write access.\<close>

definition write_hits :: "MemoryAccess \<Rightarrow> rword \<Rightarrow> bool" where
  "write_hits a p = (accessType a AND MEMORY_WRITE \<noteq> 0 \<and>
     accessAddress a \<le> p \<and> p < accessAddress a + ucast (accessSize a))"

text \<open>
  The second loop, shared by both gates: it walks the registry by index, calls the
  callback of every entry that passes the gate's test and keeps the largest action.
  \<open>call\<close> is what calling through a function pointer does: it returns the action and
  the world after the call (the user's state; callbacks must not re-enter the VM). The
  result also lists the index and the return value of every call made, in order.
\<close>

fun gate_loop ::
  "(InstCallback \<Rightarrow> voidptr \<Rightarrow> 'w \<Rightarrow> VMAction \<times> 'w) \<Rightarrow> (MemCBInfo \<Rightarrow> bool) \<Rightarrow>
   (u32 \<times> MemCBInfo) list \<Rightarrow> nat \<Rightarrow> VMAction \<Rightarrow> 'w \<Rightarrow> VMAction \<times> (nat \<times> VMAction) list \<times> 'w"
where
  "gate_loop call test [] i action w = (action, [], w)"
| "gate_loop call test (p # ps) i action w =
     (if test (snd p) then
        (case call (cbk (snd p)) (cb_data (snd p)) w of
           (ret, w') \<Rightarrow>
             (case gate_loop call test ps (Suc i)
                     (if VMAction_val ret > VMAction_val action then ret else action) w' of
                (act, calls, w'') \<Rightarrow> (act, (i, ret) # calls, w'')))
      else gate_loop call test ps (Suc i) action w)"

definition memReadGate_test :: "RangeSet_rword \<Rightarrow> MemCBInfo \<Rightarrow> bool" where
  "memReadGate_test readRange info =
     (cb_type info = MEMORY_READ \<and> RangeSet_overlaps readRange (cb_range info))"

definition memWriteGate_test :: "RangeSet_rword \<Rightarrow> RangeSet_rword \<Rightarrow> MemCBInfo \<Rightarrow> bool" where
  "memWriteGate_test readRange writeRange info =
     ((cb_type info AND MEMORY_WRITE \<noteq> 0 \<and> RangeSet_overlaps writeRange (cb_range info)) \<or>
      (cb_type info = MEMORY_READ_WRITE \<and> RangeSet_overlaps readRange (cb_range info)))"

text \<open>
  \<^verbatim>\<open>memReadGate\<close> and \<^verbatim>\<open>memWriteGate\<close>. \<open>memAccesses\<close> is what
  \<^verbatim>\<open>vm->getInstMemoryAccess()\<close> returned, \<open>memCBInfos\<close> the vector behind \<^verbatim>\<open>data\<close>.
\<close>

definition memReadGate ::
  "(InstCallback \<Rightarrow> voidptr \<Rightarrow> 'w \<Rightarrow> VMAction \<times> 'w) \<Rightarrow> MemoryAccess list \<Rightarrow>
   (u32 \<times> MemCBInfo) list \<Rightarrow> 'w \<Rightarrow> VMAction \<times> (nat \<times> VMAction) list \<times> 'w"
where
  "memReadGate call memAccesses memCBInfos w =
     gate_loop call (memReadGate_test (gate_readRange memAccesses [])) memCBInfos 0 CONTINUE w"

definition memWriteGate ::
  "(InstCallback \<Rightarrow> voidptr \<Rightarrow> 'w \<Rightarrow> VMAction \<times> 'w) \<Rightarrow> MemoryAccess list \<Rightarrow>
   (u32 \<times> MemCBInfo) list \<Rightarrow> 'w \<Rightarrow> VMAction \<times> (nat \<times> VMAction) list \<times> 'w"
where
  "memWriteGate call memAccesses memCBInfos w =
     gate_loop call
       (memWriteGate_test (gate_readRange memAccesses []) (gate_writeRange memAccesses []))
       memCBInfos 0 CONTINUE w"

text \<open>The action a gate returns, and the calls it made.\<close>

definition gate_action :: "VMAction \<times> (nat \<times> VMAction) list \<times> 'w \<Rightarrow> VMAction" where
  "gate_action r = fst r"

definition gate_calls :: "VMAction \<times> (nat \<times> VMAction) list \<times> 'w \<Rightarrow> (nat \<times> VMAction) list" where
  "gate_calls r = fst (snd r)"

text \<open>\<^verbatim>\<open>stopCallback\<close> ignores its arguments.\<close>

definition stopCallback :: "'w \<Rightarrow> VMAction \<times> 'w" where
  "stopCallback w = (STOP, w)"

section \<open>What the gates are to do\<close>

text \<open>
  The entries a gate has to call, stated from the accesses alone and apart from the
  loops of the gates. An access touches a range when its bytes
  \<^verbatim>\<open>[accessAddress, accessAddress + size)\<close> (the end computed in \<^verbatim>\<open>rword\<close>; there is no
  byte when the end is not above the start) and the range have a byte in common. An
  entry is due at the read gate when its type is \<^verbatim>\<open>MEMORY_READ\<close> and an access with the
  read bit touches its range. It is due at the write gate when its type has the write
  bit and an access with the write bit touches its range, or when its type is
  \<^verbatim>\<open>MEMORY_READ_WRITE\<close> and an access with the read bit touches its range.
\<close>

definition access_overlaps :: "MemoryAccess \<Rightarrow> Range_rword \<Rightarrow> bool" where
  "access_overlaps a r =
     (accessAddress a < accessAddress a + ucast (accessSize a) \<and>
      accessAddress a < rend r \<and> rstart r < accessAddress a + ucast (accessSize a))"

definition read_due :: "MemoryAccess list \<Rightarrow> MemCBInfo \<Rightarrow> bool" where
  "read_due accs info =
     (cb_type info = MEMORY_READ \<and>
      list_ex (\<lambda>a. accessType a AND MEMORY_READ \<noteq> 0 \<and> access_overlaps a (cb_range info)) accs)"

definition write_due :: "MemoryAccess list \<Rightarrow> MemCBInfo \<Rightarrow> bool" where
  "write_due accs info =
     ((cb_type info AND MEMORY_WRITE \<noteq> 0 \<and>
       list_ex (\<lambda>a. accessType a AND MEMORY_WRITE \<noteq> 0 \<and> access_overlaps a (cb_range info)) accs) \<or>
      (cb_type info = MEMORY_READ_WRITE \<and>
       list_ex (\<lambda>a. accessType a AND MEMORY_READ \<noteq> 0 \<and> access_overlaps a (cb_range info)) accs))"

text \<open>
  Calling the callbacks of a list of entries one after the other, each in the world the
  one before it left: the actions they return and the world after the last call.
\<close>

fun call_all ::
  "(InstCallback \<Rightarrow> voidptr \<Rightarrow> 'w \<Rightarrow> VMAction \<times> 'w) \<Rightarrow> MemCBInfo list \<Rightarrow> 'w \<Rightarrow>
   VMAction list \<times> 'w"
where
  "call_all call [] w = ([], w)"
| "call_all call (e # es) w =
     (case call (cbk e) (cb_data e) w of
        (ret, w') \<Rightarrow> (case call_all call es w' of (rets, w'') \<Rightarrow> (ret # rets, w'')))"

text \<open>
  The entries of a registry that are due: their indices, the actions their callbacks
  return when they are called in the order of the registry, and the world after these
  calls.
\<close>

definition due_indices :: "(MemCBInfo \<Rightarrow> bool) \<Rightarrow> (u32 \<times> MemCBInfo) list \<Rightarrow> nat list" where
  "due_indices due cbs = filter (\<lambda>j. due (snd (cbs ! j))) [0..<length cbs]"

definition due_returns ::
  "(InstCallback \<Rightarrow> voidptr \<Rightarrow> 'w \<Rightarrow> VMAction \<times> 'w) \<Rightarrow> (MemCBInfo \<Rightarrow> bool) \<Rightarrow>
   (u32 \<times> MemCBInfo) list \<Rightarrow> 'w \<Rightarrow> VMAction list" where
  "due_returns call due cbs w = fst (call_all call (filter due (map snd cbs)) w)"

definition due_world ::
  "(InstCallback \<Rightarrow> voidptr \<Rightarrow> 'w \<Rightarrow> VMAction \<times> 'w) \<Rightarrow> (MemCBInfo \<Rightarrow> bool) \<Rightarrow>
   (u32 \<times> MemCBInfo) list \<Rightarrow> 'w \<Rightarrow> 'w" where
  "due_world call due cbs w = snd (call_all call (filter due (map snd cbs)) w)"

text \<open>
  Every range of a registry has its end above its start, which \<^verbatim>\<open>addMemRangeCB\<close>
  requires of what it registers.
\<close>

definition ranges_nonempty :: "(u32 \<times> MemCBInfo) list \<Rightarrow> bool" where
  "ranges_nonempty cbs = list_all (\<lambda>p. rstart (cb_range (snd p)) < rend (cb_range (snd p))) cbs"

section \<open>Instrumentation rules\<close>

text \<open>
  The rules \<^verbatim>\<open>VM.cpp\<close> builds. The classes themselves (conditions, generators,
  \<^verbatim>\<open>InstrRuleBasic\<close>, \<^verbatim>\<open>InstrRuleUser\<close>) are declared outside the sources; a rule is
  kept as the constructor call the source writes. A \<^verbatim>\<open>const char *\<close> mnemonic is a
  string here, the null check is made on its option.
\<close>

datatype PatchCondition =
  True_cond | MnemonicIs string | AddressIs rword | InstructionInRange rword rword |
  DoesReadAccess | DoesWriteAccess | Or_cond "PatchCondition list"

datatype InstPosition = PREINST | POSTINST

text \<open>
  Modelled from the spec: \<^verbatim>\<open>getInstrRuleMemAccessRead()\<close> and
  \<^verbatim>\<open>getInstrRuleMemAccessWrite()\<close> (not among the sources). The spec says that enabling
  the recording of a direction installs a fixed set of shadow generators, before the
  instruction for reads and after it for writes; one rule per direction stands for that
  set.
\<close>

datatype PatchGenerator = CallbackGenerator InstCallback voidptr | ShadowGenerator

datatype InstrRule =
  InstrRuleBasic PatchCondition PatchGenerator InstPosition bool |
  InstrRuleUser "InstrRuleCallback option" u32 voidptr RangeSet_rword

definition getCallbackGenerator :: "InstCallback \<Rightarrow> voidptr \<Rightarrow> PatchGenerator" where
  "getCallbackGenerator f d = CallbackGenerator f d"

definition getInstrRuleMemAccessRead :: "InstrRule list" where
  "getInstrRuleMemAccessRead = [InstrRuleBasic DoesReadAccess ShadowGenerator PREINST False]"

definition getInstrRuleMemAccessWrite :: "InstrRule list" where
  "getInstrRuleMemAccessWrite = [InstrRuleBasic DoesWriteAccess ShadowGenerator POSTINST False]"

section \<open>The engine\<close>

text \<open>
  Modelled from the spec: the class \<^verbatim>\<open>ExecBlock\<close> and the function
  \<^verbatim>\<open>analyseMemoryAccess\<close> (not among the sources). The VM reads the current sequence
  and instruction ids of a block and the first and last instruction id of a sequence;
  \<open>instAccesses i afterInst\<close> are the entries \<^verbatim>\<open>analyseMemoryAccess\<close> appends for
  instruction \<open>i\<close>, and \<open>instAnalysis\<close> is the pointer \<^verbatim>\<open>getInstAnalysis\<close> of the
  block returns (an address).
\<close>

record ExecBlock =
  currentSeqID :: u16
  currentInstID :: u16
  seqStart :: "u16 \<Rightarrow> u16"
  seqEnd :: "u16 \<Rightarrow> u16"
  instAccesses :: "u16 \<Rightarrow> bool \<Rightarrow> MemoryAccess list"
  instAnalysis :: "u16 \<Rightarrow> u32 \<Rightarrow> rword option"

text \<open>
  Modelled from the spec: the class \<^verbatim>\<open>Engine\<close> (\<^verbatim>\<open>Engine.cpp\<close> is not among the
  sources). The spec gives it \<^verbatim>\<open>addInstrRule\<close>, VM event registration,
  \<^verbatim>\<open>deleteInstrumentation\<close>, \<^verbatim>\<open>deleteAllInstrumentations\<close> and \<^verbatim>\<open>getCurExecBlock\<close>;
  an engine id has its most significant bit clear, \<^verbatim>\<open>INVALID_EVENTID\<close> denotes
  failure, a rule lives from its registration to its deletion, and deleting an unknown
  id returns false. The engine keeps its entries in registration order and numbers them
  with a counter; once the ids with a clear top bit are used up, registration fails.
\<close>

datatype EngineEntry = RuleEntry InstrRule | VMEventEntry u32 nat voidptr

record Engine =
  instrRules :: "(u32 \<times> EngineEntry) list"
  instrRulesCounter :: u32
  curExecBlock :: "ExecBlock option"
  isPreInst :: bool

definition Engine_register :: "EngineEntry \<Rightarrow> Engine \<Rightarrow> u32 \<times> Engine" where
  "Engine_register x e =
     (if instrRulesCounter e < EVENTID_VIRTCB_MASK then
        (instrRulesCounter e,
         e\<lparr>instrRules := instrRules e @ [(instrRulesCounter e, x)],
           instrRulesCounter := instrRulesCounter e + 1\<rparr>)
      else (INVALID_EVENTID, e))"

definition Engine_addInstrRule :: "InstrRule \<Rightarrow> Engine \<Rightarrow> u32 \<times> Engine" where
  "Engine_addInstrRule r e = Engine_register (RuleEntry r) e"

definition Engine_addVMEventCB :: "u32 \<Rightarrow> nat \<Rightarrow> voidptr \<Rightarrow> Engine \<Rightarrow> u32 \<times> Engine" where
  "Engine_addVMEventCB evmask f d e = Engine_register (VMEventEntry evmask f d) e"

definition Engine_deleteInstrumentation :: "u32 \<Rightarrow> Engine \<Rightarrow> bool \<times> Engine" where
  "Engine_deleteInstrumentation k e =
     (if list_ex (\<lambda>p. fst p = k) (instrRules e)
      then (True, e\<lparr>instrRules := filter (\<lambda>p. fst p \<noteq> k) (instrRules e)\<rparr>)
      else (False, e))"

definition Engine_deleteAllInstrumentations :: "Engine \<Rightarrow> Engine" where
  "Engine_deleteAllInstrumentations e = e\<lparr>instrRules := []\<rparr>"

definition Engine_init :: Engine where
  "Engine_init =
     \<lparr>instrRules = [], instrRulesCounter = 0, curExecBlock = None, isPreInst = False\<rparr>"

section \<open>The VM\<close>

text \<open>
  The members of \<^verbatim>\<open>class VM\<close> as the constructor initialises them. The two vectors
  behind \<^verbatim>\<open>unique_ptr\<close> are held by value; \<^verbatim>\<open>memoryLoggingLevel\<close> is a byte.
\<close>

record VM =
  engine :: Engine
  memoryLoggingLevel :: u8
  memCBInfos :: "(u32 \<times> MemCBInfo) list"
  memCBID :: u32
  memReadGateCBID :: u32
  memWriteGateCBID :: u32
  instrCBInfos :: "(u32 \<times> InstrCBInfo) list"

definition VM_ctor :: VM where
  "VM_ctor =
     \<lparr>engine = Engine_init, memoryLoggingLevel = 0, memCBInfos = [], memCBID = 0,
      memReadGateCBID = INVALID_EVENTID, memWriteGateCBID = INVALID_EVENTID,
      instrCBInfos = []\<rparr>"

text \<open>\<^verbatim>\<open>engine->addInstrRule(rule)\<close> on the engine of a VM.\<close>

definition engine_addInstrRule :: "InstrRule \<Rightarrow> VM \<Rightarrow> u32 \<times> VM" where
  "engine_addInstrRule r s =
     (case Engine_addInstrRule r (engine s) of (k, e) \<Rightarrow> (k, s\<lparr>engine := e\<rparr>))"

fun engine_addInstrRules :: "InstrRule list \<Rightarrow> VM \<Rightarrow> VM" where
  "engine_addInstrRules [] s = s"
| "engine_addInstrRules (r # rs) s = engine_addInstrRules rs (snd (engine_addInstrRule r s))"

text \<open>\<^verbatim>\<open>VM::recordMemoryAccess\<close> on x86-64 (the \<^verbatim>\<open>if constexpr\<close> does not return).\<close>

definition recordMemoryAccess :: "MemoryAccessType \<Rightarrow> VM \<Rightarrow> bool \<times> VM" where
  "recordMemoryAccess type s =
     (let s1 =
        (if type AND MEMORY_READ \<noteq> 0 \<and> memoryLoggingLevel s AND ucast MEMORY_READ = 0
         then engine_addInstrRules getInstrRuleMemAccessRead
                (s\<lparr>memoryLoggingLevel := memoryLoggingLevel s OR ucast MEMORY_READ\<rparr>)
         else s);
          s2 =
        (if type AND MEMORY_WRITE \<noteq> 0 \<and> memoryLoggingLevel s1 AND ucast MEMORY_WRITE = 0
         then engine_addInstrRules getInstrRuleMemAccessWrite
                (s1\<lparr>memoryLoggingLevel := memoryLoggingLevel s1 OR ucast MEMORY_WRITE\<rparr>)
         else s1)
      in (True, s2))"


section \<open>Registration\<close>

text \<open>
  Every registration returns the id and the VM after the call. \<^verbatim>\<open>QBDI_REQUIRE_ACTION\<close>
  returns at once when its condition fails. The two overloads of \<^verbatim>\<open>addInstrRule\<close> and
  of \<^verbatim>\<open>addInstrRuleRange\<close> are told apart by a suffix \<open>C\<close> for the one that takes an
  \<^verbatim>\<open>InstrRuleCallbackC\<close>.
\<close>

definition addInstrRule :: "InstrRuleCallback option \<Rightarrow> u32 \<Rightarrow> voidptr \<Rightarrow> VM \<Rightarrow> u32 \<times> VM" where
  "addInstrRule f type d s =
     engine_addInstrRule (InstrRuleUser f type d (RangeSet_add (Range_ctor 0 (- 1)) [])) s"

definition addInstrRuleC :: "nat option \<Rightarrow> u32 \<Rightarrow> rword \<Rightarrow> VM \<Rightarrow> u32 \<times> VM" where
  "addInstrRuleC f type d s =
     (let info = \<lparr>icb_range = Range_ctor 0 (- 1), icb_cbk = f, icb_type = type, icb_data = d\<rparr>
      in case addInstrRule (Some InstrCBGateC_ptr) type (InstrCBInfoPtr info) s of
           (k, s1) \<Rightarrow> (k, s1\<lparr>instrCBInfos := instrCBInfos s1 @ [(k, info)]\<rparr>))"

definition addInstrRuleRange ::
  "rword \<Rightarrow> rword \<Rightarrow> InstrRuleCallback option \<Rightarrow> u32 \<Rightarrow> voidptr \<Rightarrow> VM \<Rightarrow> u32 \<times> VM" where
  "addInstrRuleRange start end' f type d s =
     engine_addInstrRule (InstrRuleUser f type d (RangeSet_add (Range_ctor start end') [])) s"

definition addInstrRuleRangeC ::
  "rword \<Rightarrow> rword \<Rightarrow> nat option \<Rightarrow> u32 \<Rightarrow> rword \<Rightarrow> VM \<Rightarrow> u32 \<times> VM" where
  "addInstrRuleRangeC start end' f type d s =
     (let info = \<lparr>icb_range = Range_ctor start end', icb_cbk = f, icb_type = type, icb_data = d\<rparr>
      in case addInstrRuleRange start end' (Some InstrCBGateC_ptr) type (InstrCBInfoPtr info) s of
           (k, s1) \<Rightarrow> (k, s1\<lparr>instrCBInfos := instrCBInfos s1 @ [(k, info)]\<rparr>))"

definition addInstrRuleRangeSet ::
  "RangeSet_rword \<Rightarrow> InstrRuleCallback option \<Rightarrow> u32 \<Rightarrow> voidptr \<Rightarrow> VM \<Rightarrow> u32 \<times> VM" where
  "addInstrRuleRangeSet rs f type d s = engine_addInstrRule (InstrRuleUser f type d rs) s"

definition addMnemonicCB ::
  "string option \<Rightarrow> InstPosition \<Rightarrow> InstCallback option \<Rightarrow> voidptr \<Rightarrow> VM \<Rightarrow> u32 \<times> VM" where
  "addMnemonicCB mnemonic pos cb d s =
     (case mnemonic of
        None \<Rightarrow> (INVALID_EVENTID, s)
      | Some m \<Rightarrow>
          (case cb of
             None \<Rightarrow> (INVALID_EVENTID, s)
           | Some f \<Rightarrow>
               engine_addInstrRule
                 (InstrRuleBasic (MnemonicIs m) (getCallbackGenerator f d) pos True) s))"

definition addCodeCB :: "InstPosition \<Rightarrow> InstCallback option \<Rightarrow> voidptr \<Rightarrow> VM \<Rightarrow> u32 \<times> VM" where
  "addCodeCB pos cb d s =
     (case cb of
        None \<Rightarrow> (INVALID_EVENTID, s)
      | Some f \<Rightarrow>
          engine_addInstrRule (InstrRuleBasic True_cond (getCallbackGenerator f d) pos True) s)"

definition addCodeAddrCB ::
  "rword \<Rightarrow> InstPosition \<Rightarrow> InstCallback option \<Rightarrow> voidptr \<Rightarrow> VM \<Rightarrow> u32 \<times> VM" where
  "addCodeAddrCB address pos cb d s =
     (case cb of
        None \<Rightarrow> (INVALID_EVENTID, s)
      | Some f \<Rightarrow>
          engine_addInstrRule
            (InstrRuleBasic (AddressIs address) (getCallbackGenerator f d) pos True) s)"

definition addCodeRangeCB ::
  "rword \<Rightarrow> rword \<Rightarrow> InstPosition \<Rightarrow> InstCallback option \<Rightarrow> voidptr \<Rightarrow> VM \<Rightarrow> u32 \<times> VM" where
  "addCodeRangeCB start end' pos cb d s =
     (if \<not> start < end' then (INVALID_EVENTID, s)
      else
        (case cb of
           None \<Rightarrow> (INVALID_EVENTID, s)
         | Some f \<Rightarrow>
             engine_addInstrRule
               (InstrRuleBasic (InstructionInRange start end') (getCallbackGenerator f d) pos True)
               s))"

definition addMemAccessCB ::
  "MemoryAccessType \<Rightarrow> InstCallback option \<Rightarrow> voidptr \<Rightarrow> VM \<Rightarrow> u32 \<times> VM" where
  "addMemAccessCB type cb d s =
     (case cb of
        None \<Rightarrow> (INVALID_EVENTID, s)
      | Some f \<Rightarrow>
          (let s1 = snd (recordMemoryAccess type s) in
           if type = MEMORY_READ then
             engine_addInstrRule
               (InstrRuleBasic DoesReadAccess (getCallbackGenerator f d) PREINST True) s1
           else if type = MEMORY_WRITE then
             engine_addInstrRule
               (InstrRuleBasic DoesWriteAccess (getCallbackGenerator f d) POSTINST True) s1
           else if type = MEMORY_READ_WRITE then
             engine_addInstrRule
               (InstrRuleBasic (Or_cond [DoesReadAccess, DoesWriteAccess])
                  (getCallbackGenerator f d) POSTINST True) s1
           else (INVALID_EVENTID, s1)))"

definition addMemRangeCB ::
  "rword \<Rightarrow> rword \<Rightarrow> MemoryAccessType \<Rightarrow> InstCallback option \<Rightarrow> voidptr \<Rightarrow> VM \<Rightarrow> u32 \<times> VM"
where
  "addMemRangeCB start end' type cb d s =
     (if \<not> start < end' then (INVALID_EVENTID, s)
      else if type AND MEMORY_READ_WRITE = 0 then (INVALID_EVENTID, s)
      else
        (case cb of
           None \<Rightarrow> (INVALID_EVENTID, s)
         | Some f \<Rightarrow>
             (let s1 =
                (if type = MEMORY_READ \<and> memReadGateCBID s = INVALID_EVENTID then
                   (case addMemAccessCB MEMORY_READ (Some memReadGate_ptr) MemCBInfosPtr s of
                      (g, t) \<Rightarrow> t\<lparr>memReadGateCBID := g\<rparr>)
                 else s);
                  s2 =
                (if type AND MEMORY_WRITE \<noteq> 0 \<and> memWriteGateCBID s1 = INVALID_EVENTID then
                   (case addMemAccessCB MEMORY_READ_WRITE (Some memWriteGate_ptr) MemCBInfosPtr s1 of
                      (g, t) \<Rightarrow> t\<lparr>memWriteGateCBID := g\<rparr>)
                 else s1);
                  k = memCBID s2;
                  s3 = s2\<lparr>memCBID := memCBID s2 + 1\<rparr>
              in if \<not> k < EVENTID_VIRTCB_MASK then (INVALID_EVENTID, s3)
                 else
                   (k OR EVENTID_VIRTCB_MASK,
                    s3\<lparr>memCBInfos := memCBInfos s3 @
                         [(k, \<lparr>cb_type = type, cb_range = Range_ctor start end', cbk = f,
                               cb_data = d\<rparr>)]\<rparr>))))"

definition addMemAddrCB ::
  "rword \<Rightarrow> MemoryAccessType \<Rightarrow> InstCallback option \<Rightarrow> voidptr \<Rightarrow> VM \<Rightarrow> u32 \<times> VM" where
  "addMemAddrCB address type cb d s =
     (case cb of
        None \<Rightarrow> (INVALID_EVENTID, s)
      | Some f \<Rightarrow> addMemRangeCB address (address + 1) type cb d s)"

definition addVMEventCB :: "u32 \<Rightarrow> nat option \<Rightarrow> voidptr \<Rightarrow> VM \<Rightarrow> u32 \<times> VM" where
  "addVMEventCB evmask cb d s =
     (if evmask = 0 then (INVALID_EVENTID, s)
      else
        (case cb of
           None \<Rightarrow> (INVALID_EVENTID, s)
         | Some f \<Rightarrow>
             (case Engine_addVMEventCB evmask f d (engine s) of
                (k, e) \<Rightarrow> (k, s\<lparr>engine := e\<rparr>))))"

section \<open>Deletion\<close>

text \<open>
  The loop of \<^verbatim>\<open>deleteInstrumentation\<close> over \<^verbatim>\<open>memCBInfos\<close>: it erases the first
  entry with the id and returns; \<open>None\<close> when the loop ends without a match.
\<close>

fun memCBInfos_erase :: "u32 \<Rightarrow> (u32 \<times> MemCBInfo) list \<Rightarrow> (u32 \<times> MemCBInfo) list option" where
  "memCBInfos_erase k [] = None"
| "memCBInfos_erase k (p # ps) =
     (if fst p = k then Some ps
      else (case memCBInfos_erase k ps of None \<Rightarrow> None | Some ps' \<Rightarrow> Some (p # ps')))"

definition deleteInstrumentation :: "u32 \<Rightarrow> VM \<Rightarrow> bool \<times> VM" where
  "deleteInstrumentation k s =
     (if k AND EVENTID_VIRTCB_MASK \<noteq> 0 then
        (case memCBInfos_erase (k AND NOT EVENTID_VIRTCB_MASK) (memCBInfos s) of
           Some l \<Rightarrow> (True, s\<lparr>memCBInfos := l\<rparr>)
         | None \<Rightarrow> (False, s))
      else
        (let s1 = s\<lparr>instrCBInfos := filter (\<lambda>x. \<not> fst x = k) (instrCBInfos s)\<rparr>
         in case Engine_deleteInstrumentation k (engine s1) of
              (b, e) \<Rightarrow> (b, s1\<lparr>engine := e\<rparr>)))"

definition deleteAllInstrumentations :: "VM \<Rightarrow> VM" where
  "deleteAllInstrumentations s =
     s\<lparr>engine := Engine_deleteAllInstrumentations (engine s),
       memReadGateCBID := INVALID_EVENTID,
       memWriteGateCBID := INVALID_EVENTID,
       memCBInfos := [],
       instrCBInfos := [],
       memoryLoggingLevel := 0\<rparr>"

section \<open>Queries\<close>

text \<open>
  The three queries return their result and the VM after the call; a null pointer of
  the source is \<open>None\<close>.
\<close>

definition getInstAnalysis :: "u32 \<Rightarrow> VM \<Rightarrow> rword option \<times> VM" where
  "getInstAnalysis type s =
     (case curExecBlock (engine s) of
        None \<Rightarrow> (None, s)
      | Some b \<Rightarrow> (instAnalysis b (currentInstID b) type, s))"

definition getInstMemoryAccess :: "VM \<Rightarrow> MemoryAccess list \<times> VM" where
  "getInstMemoryAccess s =
     (case curExecBlock (engine s) of
        None \<Rightarrow> ([], s)
      | Some b \<Rightarrow> ([] @ instAccesses b (currentInstID b) (\<not> isPreInst (engine s)), s))"

text \<open>
  The loop of \<^verbatim>\<open>getBBMemoryAccess\<close>. Its counter is a \<^verbatim>\<open>uint16_t\<close> compared with
  \<^verbatim>\<open><=\<close>, so \<^verbatim>\<open>itInstID++\<close> wraps to 0 after 65535 and the loop does not end when
  the bound is 65535: the loop is a partial function, \<open>None\<close> when it does not return.
\<close>

partial_function (option) getBBMemoryAccess_loop ::
  "ExecBlock \<Rightarrow> u16 \<Rightarrow> u16 \<Rightarrow> bool \<Rightarrow> u16 \<Rightarrow> MemoryAccess list \<Rightarrow> MemoryAccess list option"
where
  "getBBMemoryAccess_loop b bound instID pre itInstID memAccess =
     (if itInstID \<le> bound then
        getBBMemoryAccess_loop b bound instID pre (itInstID + 1)
          (memAccess @ instAccesses b itInstID (itInstID \<noteq> instID \<or> \<not> pre))
      else Some memAccess)"

definition getBBMemoryAccess :: "VM \<Rightarrow> MemoryAccess list option \<times> VM" where
  "getBBMemoryAccess s =
     (case curExecBlock (engine s) of
        None \<Rightarrow> (Some [], s)
      | Some b \<Rightarrow>
          (let bbID = currentSeqID b;
               instID = currentInstID b;
               endInstID = seqEnd b bbID
           in (getBBMemoryAccess_loop b (min endInstID instID) instID (isPreInst (engine s))
                 (seqStart b bbID) [], s)))"

section \<open>Running\<close>

text \<open>
  \<^verbatim>\<open>VM::run\<close>. \<^verbatim>\<open>engine->run\<close> is not among the sources and runs user callbacks; it is
  the parameter \<open>engine_run\<close>, which maps the VM before the run to its result and the
  VM after it.
\<close>

definition run :: "(rword \<Rightarrow> rword \<Rightarrow> VM \<Rightarrow> bool \<times> VM) \<Rightarrow> rword \<Rightarrow> rword \<Rightarrow> VM \<Rightarrow> bool \<times> VM" where
  "run engine_run start stop s =
     (case addCodeAddrCB stop PREINST (Some stopCallback_ptr) (UserPtr 0) s of
        (stopCB, s1) \<Rightarrow>
          (case engine_run start stop s1 of
             (ret, s2) \<Rightarrow> (ret, snd (deleteInstrumentation stopCB s2))))"

section \<open>Sequences of operations on the memory callback registry\<close>

datatype vm_op =
  AddMemRangeCB rword rword MemoryAccessType "InstCallback option" voidptr
| AddMemAddrCB rword MemoryAccessType "InstCallback option" voidptr
| DeleteInstrumentation u32
| DeleteAllInstrumentations

fun apply_op :: "vm_op \<Rightarrow> VM \<Rightarrow> VM" where
  "apply_op (AddMemRangeCB start end' type cb d) s = snd (addMemRangeCB start end' type cb d s)"
| "apply_op (AddMemAddrCB address type cb d) s = snd (addMemAddrCB address type cb d s)"
| "apply_op (DeleteInstrumentation k) s = snd (deleteInstrumentation k s)"
| "apply_op DeleteAllInstrumentations s = deleteAllInstrumentations s"

fun apply_ops :: "vm_op list \<Rightarrow> VM \<Rightarrow> VM" where
  "apply_ops [] s = s"
| "apply_ops (x # xs) s = apply_ops xs (apply_op x s)"

text \<open>Which gate an entry of the registry needs, as \<^verbatim>\<open>addMemRangeCB\<close> tests it.\<close>

definition needs_read_gate :: "u32 \<times> MemCBInfo \<Rightarrow> bool" where
  "needs_read_gate p = (cb_type (snd p) = MEMORY_READ)"

definition needs_write_gate :: "u32 \<times> MemCBInfo \<Rightarrow> bool" where
  "needs_write_gate p = (cb_type (snd p) AND MEMORY_WRITE \<noteq> 0)"

text \<open>The gate invariant as the spec states it, and the half of it the code keeps.\<close>

definition gate_iff_needed :: "VM \<Rightarrow> bool" where
  "gate_iff_needed s =
     ((memReadGateCBID s \<noteq> INVALID_EVENTID) = list_ex needs_read_gate (memCBInfos s) \<and>
      (memWriteGateCBID s \<noteq> INVALID_EVENTID) = list_ex needs_write_gate (memCBInfos s))"

definition gate_if_needed :: "VM \<Rightarrow> bool" where
  "gate_if_needed s =
     ((list_ex needs_read_gate (memCBInfos s) \<longrightarrow> memReadGateCBID s \<noteq> INVALID_EVENTID) \<and>
      (list_ex needs_write_gate (memCBInfos s) \<longrightarrow> memWriteGateCBID s \<noteq> INVALID_EVENTID))"

text \<open>
  Registering a one-byte read callback and deleting it again under the id that was
  returned, and the same done \<open>n\<close> times.
\<close>

definition register_and_delete :: "VM \<Rightarrow> VM" where
  "register_and_delete s =
     (case addMemRangeCB 0 1 MEMORY_READ (Some (UserInstCallback 0)) (UserPtr 0) s of
        (k, s1) \<Rightarrow> snd (deleteInstrumentation k s1))"

text \<open>
  The ids of the engine's entries lie below its counter. This holds for a new engine
  and after each of its operations.
\<close>

definition Engine_wf :: "Engine \<Rightarrow> bool" where
  "Engine_wf e = list_all (\<lambda>p. fst p < instrRulesCounter e) (instrRules e)"

text \<open>
  The ids kept in \<^verbatim>\<open>instrCBInfos\<close> were returned by the engine: each lies below the
  engine's counter or is \<^verbatim>\<open>INVALID_EVENTID\<close> (the source stores the id of a failed
  registration too).
\<close>

definition VM_wf :: "VM \<Rightarrow> bool" where
  "VM_wf s =
     (Engine_wf (engine s) \<and>
      list_all (\<lambda>p. fst p < instrRulesCounter (engine s) \<or> fst p = INVALID_EVENTID)
        (instrCBInfos s))"

text \<open>
  Two VMs hold the same instrumentation: the same engine entries, the same memory
  callback registry and gate ids, and the same \<^verbatim>\<open>InstrCBInfo\<close> list.
\<close>

definition same_instrumentation :: "VM \<Rightarrow> VM \<Rightarrow> bool" where
  "same_instrumentation s t =
     (instrRules (engine s) = instrRules (engine t) \<and> memCBInfos s = memCBInfos t \<and>
      memReadGateCBID s = memReadGateCBID t \<and> memWriteGateCBID s = memWriteGateCBID t \<and>
      instrCBInfos s = instrCBInfos t)"

section \<open>The break to host\<close>

text \<open>
  Modelled from the spec: the relocatable instructions \<^verbatim>\<open>getBreakToHost\<close> is built from
  (\<^verbatim>\<open>HostPCRel\<close>, \<^verbatim>\<open>SaveReg\<close>, \<^verbatim>\<open>LoadReg\<close>, \<^verbatim>\<open>JmpEpilogue\<close>, \<^verbatim>\<open>Offset\<close>, the
  assemblers \<^verbatim>\<open>mov32ri\<close> and \<^verbatim>\<open>mov64ri\<close>; their classes are not among the sources).
  The spec: \<^verbatim>\<open>HostPCRel\<close> bakes the host PC plus an offset into an operand of an
  instruction, \<^verbatim>\<open>SaveReg\<close> and \<^verbatim>\<open>LoadReg\<close> access the Context at an offset,
  \<^verbatim>\<open>JmpEpilogue\<close> branches to the block epilogue. A register is its number; an offset
  into the Context is the selector's (\<^verbatim>\<open>offsetof(Context, hostState.selector)\<close>) or that
  of the slot of a register (\<^verbatim>\<open>Offset(temp)\<close>).
\<close>

type_synonym Reg = nat

datatype MCInst = mov32ri Reg rword | mov64ri Reg rword

datatype Offset = Offset_selector | Offset_reg Reg

datatype RelocatableInst =
  HostPCRel MCInst nat rword | SaveRegInst Reg Offset | LoadRegInst Reg Offset | JmpEpilogueInst

definition SaveReg :: "Reg \<Rightarrow> Offset \<Rightarrow> RelocatableInst list" where
  "SaveReg r off = [SaveRegInst r off]"

definition LoadReg :: "Reg \<Rightarrow> Offset \<Rightarrow> RelocatableInst list" where
  "LoadReg r off = [LoadRegInst r off]"

definition JmpEpilogue :: "RelocatableInst list" where
  "JmpEpilogue = [JmpEpilogueInst]"

text \<open>
  \<^verbatim>\<open>getBreakToHost\<close> of \<^verbatim>\<open>InstrRules_X86_64.cpp\<close>; \<open>is_x86\<close> is the compile-time
  constant of the source.
\<close>

definition getBreakToHost :: "bool \<Rightarrow> Reg \<Rightarrow> RelocatableInst list" where
  "getBreakToHost is_x86 temp =
     (let breakToHost =
        [if is_x86 then HostPCRel (mov32ri temp 0) 1 22 else HostPCRel (mov64ri temp 0) 1 29];
          breakToHost = breakToHost @ SaveReg temp Offset_selector;
          breakToHost = breakToHost @ LoadReg temp (Offset_reg temp);
          breakToHost = breakToHost @ JmpEpilogue
      in breakToHost)"

text \<open>
  Modelled from the spec: what executing a relocatable instruction does, once it is
  materialised at the host address \<open>hostPC\<close>. The host machine has its registers, the
  Context, its program counter and the address of the epilogue. The size in bytes of an
  encoded instruction comes from the encoder, which is not modelled: it is the
  parameter \<open>sz\<close>. A sequence runs until it jumps.
\<close>

record HostMachine =
  gpr :: "Reg \<Rightarrow> rword"
  ctx :: "Offset \<Rightarrow> rword"
  hostPC :: rword
  epilogue :: rword

fun setOperand :: "MCInst \<Rightarrow> nat \<Rightarrow> rword \<Rightarrow> MCInst" where
  "setOperand (mov32ri r i) n v = (if n = 1 then mov32ri r v else mov32ri r i)"
| "setOperand (mov64ri r i) n v = (if n = 1 then mov64ri r v else mov64ri r i)"

fun exec_MCInst :: "MCInst \<Rightarrow> HostMachine \<Rightarrow> HostMachine" where
  "exec_MCInst (mov32ri r i) m = m\<lparr>gpr := (gpr m)(r := i)\<rparr>"
| "exec_MCInst (mov64ri r i) m = m\<lparr>gpr := (gpr m)(r := i)\<rparr>"

fun exec_reloc :: "(RelocatableInst \<Rightarrow> nat) \<Rightarrow> RelocatableInst \<Rightarrow> HostMachine \<Rightarrow> HostMachine" where
  "exec_reloc sz (HostPCRel inst opn off) m =
     (exec_MCInst (setOperand inst opn (hostPC m + off)) m)
       \<lparr>hostPC := hostPC m + of_nat (sz (HostPCRel inst opn off))\<rparr>"
| "exec_reloc sz (SaveRegInst r off) m =
     m\<lparr>ctx := (ctx m)(off := gpr m r),
       hostPC := hostPC m + of_nat (sz (SaveRegInst r off))\<rparr>"
| "exec_reloc sz (LoadRegInst r off) m =
     m\<lparr>gpr := (gpr m)(r := ctx m off),
       hostPC := hostPC m + of_nat (sz (LoadRegInst r off))\<rparr>"
| "exec_reloc sz JmpEpilogueInst m = m\<lparr>hostPC := epilogue m\<rparr>"

fun exec_relocs :: "(RelocatableInst \<Rightarrow> nat) \<Rightarrow> RelocatableInst list \<Rightarrow> HostMachine \<Rightarrow> HostMachine" where
  "exec_relocs sz [] m = m"
| "exec_relocs sz (i # rest) m =
     (if i = JmpEpilogueInst then exec_reloc sz i m else exec_relocs sz rest (exec_reloc sz i m))"

text \<open>
  Two encoders for the examples, with the sizes of the encodings of these instructions.
  On x86-64 the move of a 64-bit immediate takes 10 bytes, a move between a register
  and a slot of the Context 7 and the jump 5; on x86 the move of a 32-bit immediate
  takes 5 bytes, a move between a register and a slot 6 and the jump 5.
\<close>

definition x86_64_size :: "RelocatableInst \<Rightarrow> nat" where
  "x86_64_size i =
     (case i of HostPCRel (mov64ri _ _) _ _ \<Rightarrow> 10 | HostPCRel (mov32ri _ _) _ _ \<Rightarrow> 5
      | SaveRegInst _ _ \<Rightarrow> 7 | LoadRegInst _ _ \<Rightarrow> 7 | JmpEpilogueInst \<Rightarrow> 5)"

definition x86_size :: "RelocatableInst \<Rightarrow> nat" where
  "x86_size i =
     (case i of HostPCRel _ _ _ \<Rightarrow> 5 | SaveRegInst _ _ \<Rightarrow> 6 | LoadRegInst _ _ \<Rightarrow> 6
      | JmpEpilogueInst \<Rightarrow> 5)"

section \<open>Example inputs\<close>

text \<open>
  A world that counts the calls made, with user callback 0 returning \<^verbatim>\<open>CONTINUE\<close>,
  callback 1 \<^verbatim>\<open>BREAK_TO_VM\<close> and every other one \<^verbatim>\<open>STOP\<close>; registry entries and
  memory accesses for the examples below.
\<close>

definition ex_call :: "InstCallback \<Rightarrow> voidptr \<Rightarrow> nat \<Rightarrow> VMAction \<times> nat" where
  "ex_call f d w =
     (case f of
        UserInstCallback n \<Rightarrow>
          (if n = 0 then CONTINUE else if n = 1 then BREAK_TO_VM else STOP, Suc w)
      | _ \<Rightarrow> (CONTINUE, w))"

definition ex_entry :: "MemoryAccessType \<Rightarrow> rword \<Rightarrow> rword \<Rightarrow> nat \<Rightarrow> MemCBInfo" where
  "ex_entry t lo hi n =
     \<lparr>cb_type = t, cb_range = Range_ctor lo hi, cbk = UserInstCallback n, cb_data = UserPtr 0\<rparr>"

definition ex_read :: MemoryAccess where
  "ex_read = \<lparr>accessAddress = 16, accessValue = 0, accessSize = 8, accessType = MEMORY_READ\<rparr>"

definition ex_write :: MemoryAccess where
  "ex_write = \<lparr>accessAddress = 200, accessValue = 0, accessSize = 4, accessType = MEMORY_WRITE\<rparr>"

text \<open>
  Two registries. Of the first, the entries 0, 1 and 3 lie over the bytes \<open>ex_read\<close>
  reads. Of the second, the entries 0 and 4 lie over the bytes \<open>ex_write\<close> writes and
  entry 1, of type \<^verbatim>\<open>MEMORY_READ_WRITE\<close>, over the bytes \<open>ex_read\<close> reads.
\<close>

definition ex_read_cbs :: "(u32 \<times> MemCBInfo) list" where
  "ex_read_cbs =
     [(0, ex_entry MEMORY_READ 0 64 2), (1, ex_entry MEMORY_READ 0 64 0),
      (2, ex_entry MEMORY_READ 100 200 2), (3, ex_entry MEMORY_READ 20 30 1)]"

definition ex_write_cbs :: "(u32 \<times> MemCBInfo) list" where
  "ex_write_cbs =
     [(0, ex_entry MEMORY_WRITE 192 208 1), (1, ex_entry MEMORY_READ_WRITE 0 64 2),
      (2, ex_entry MEMORY_READ 0 64 2), (3, ex_entry MEMORY_WRITE 0 64 2),
      (4, ex_entry MEMORY_WRITE 202 203 0)]"

text \<open>
  A block whose current sequence holds the instructions 1 to 3 and which stands before
  instruction 2; an instruction that has run recorded one read, tagged with its id.
\<close>

definition ex_block :: ExecBlock where
  "ex_block =
     \<lparr>currentSeqID = 0, currentInstID = 2, seqStart = (\<lambda>_. 1), seqEnd = (\<lambda>_. 3),
      instAccesses = (\<lambda>i afterInst. if afterInst then [ex_read\<lparr>accessValue := ucast i\<rparr>] else []),
      instAnalysis = (\<lambda>_ _. None)\<rparr>"

definition ex_vm_in_block :: VM where
  "ex_vm_in_block =
     VM_ctor\<lparr>engine := Engine_init\<lparr>curExecBlock := Some ex_block, isPreInst := True\<rparr>\<rparr>"

text \<open>An engine run that executes no callback and returns true.\<close>

definition engine_run_idle :: "rword \<Rightarrow> rword \<Rightarrow> VM \<Rightarrow> bool \<times> VM" where
  "engine_run_idle start stop s = (True, s)"

section \<open>Properties of the gates\<close>

lemma gate_loop_action:
  "VMAction_val (fst (gate_loop call test cbs i action w)) =
   Max (insert (VMAction_val action) (set (map (VMAction_val \<circ> snd)
     (fst (snd (gate_loop call test cbs i action w))))))"
proof (induction cbs arbitrary: i action w)
  case Nil
  then show ?case by simp
next
  case (Cons p ps)
  show ?case
  proof (cases "test (snd p)")
    case False
    then show ?thesis using Cons.IH by simp
  next
    case True
    obtain ret w' where c: "call (cbk (snd p)) (cb_data (snd p)) w = (ret, w')"
      by (cases "call (cbk (snd p)) (cb_data (snd p)) w")
    define a' where "a' = (if VMAction_val ret > VMAction_val action then ret else action)"
    obtain act calls w'' where g: "gate_loop call test ps (Suc i) a' w' = (act, calls, w'')"
      by (cases "gate_loop call test ps (Suc i) a' w'")
    have ih: "VMAction_val act = Max (insert (VMAction_val a') (set (map (VMAction_val \<circ> snd) calls)))"
      using Cons.IH [of "Suc i" a' w'] g by simp
    have m: "Max (insert (VMAction_val a') (set (map (VMAction_val \<circ> snd) calls))) =
             Max (insert (VMAction_val action) (insert (VMAction_val ret) (set (map (VMAction_val \<circ> snd) calls))))"
    proof -
      have "VMAction_val a' = max (VMAction_val action) (VMAction_val ret)"
        by (simp add: a'_def max_def)
      then show ?thesis
        by (cases "set calls = {}") (simp_all add: max.assoc)
    qed
    show ?thesis
      using True c g ih m by (simp add: a'_def)
  qed
qed

lemma VMAction_val_STOP: "VMAction_val a = 2 \<longleftrightarrow> a = STOP"
  by (cases a) simp_all

lemma VMAction_val_CONTINUE: "VMAction_val a = 0 \<longleftrightarrow> a = CONTINUE"
  by (cases a) simp_all

lemma VMAction_val_le: "VMAction_val a \<le> 2"
  by (cases a) simp_all

section \<open>Queries outside a callback\<close>

text \<open>
  C10: while no ExecBlock executes (\<^verbatim>\<open>engine->getCurExecBlock()\<close> is null),
  \<^verbatim>\<open>getInstMemoryAccess\<close> and \<^verbatim>\<open>getBBMemoryAccess\<close> return the empty vector (the latter
  does return), \<^verbatim>\<open>getInstAnalysis\<close> returns a null pointer, and the VM after each
  query is the VM before it.
\<close>

theorem queries_without_ExecBlock:
  "curExecBlock (engine s) = None \<Longrightarrow>
     getInstMemoryAccess s = ([], s) \<and> getBBMemoryAccess s = (Some [], s) \<and>
     getInstAnalysis type s = (None, s)"
  by (simp add: getInstMemoryAccess_def getBBMemoryAccess_def getInstAnalysis_def)

lemma VM_ctor_no_block: "curExecBlock (engine VM_ctor) = None"
  by (simp add: VM_ctor_def Engine_init_def)

theorem queries_without_ExecBlock_witness:
  "curExecBlock (engine VM_ctor) = None \<and>
   getInstMemoryAccess VM_ctor = ([], VM_ctor) \<and>
   getBBMemoryAccess VM_ctor = (Some [], VM_ctor) \<and>
   getInstAnalysis 0 VM_ctor = (None, VM_ctor)"
  using queries_without_ExecBlock [OF VM_ctor_no_block, of 0] VM_ctor_no_block by simp

section \<open>Words and the id mask\<close>

lemma mask_less_and: "(k::u32) < EVENTID_VIRTCB_MASK \<Longrightarrow> k AND EVENTID_VIRTCB_MASK = 0"
proof -
  assume "k < EVENTID_VIRTCB_MASK"
  then have "k < 2 ^ 31" by (simp add: EVENTID_VIRTCB_MASK_def)
  then have "k AND mask 31 = k" by (rule less_mask_eq)
  then have "k AND EVENTID_VIRTCB_MASK = (k AND mask 31) AND EVENTID_VIRTCB_MASK" by simp
  also have "\<dots> = k AND (mask 31 AND EVENTID_VIRTCB_MASK)" by (simp only: and.assoc)
  also have "mask 31 AND EVENTID_VIRTCB_MASK = (0::u32)"
    by (simp add: EVENTID_VIRTCB_MASK_def mask_eq_exp_minus_1)
  finally show ?thesis by simp
qed

lemma mask_absorb: "((k::u32) OR EVENTID_VIRTCB_MASK) AND EVENTID_VIRTCB_MASK = EVENTID_VIRTCB_MASK"
  by (simp add: bit_eq_iff bit_and_iff bit_or_iff)

lemma mask_nonzero: "EVENTID_VIRTCB_MASK \<noteq> 0"
  by (simp add: EVENTID_VIRTCB_MASK_def)

lemma mask_or_and: "((k::u32) OR EVENTID_VIRTCB_MASK) AND EVENTID_VIRTCB_MASK \<noteq> 0"
  by (simp add: mask_absorb mask_nonzero)

lemma mask_or_and_not:
  assumes "(k::u32) < EVENTID_VIRTCB_MASK"
  shows "(k OR EVENTID_VIRTCB_MASK) AND NOT EVENTID_VIRTCB_MASK = k"
proof -
  have z: "k AND EVENTID_VIRTCB_MASK = 0" using assms by (rule mask_less_and)
  have "\<not> (bit k n \<and> bit EVENTID_VIRTCB_MASK n)" for n
  proof -
    have "bit (k AND EVENTID_VIRTCB_MASK) n = False" by (simp add: z)
    then show ?thesis by (simp add: bit_and_iff)
  qed
  then show ?thesis
    by (auto simp: bit_eq_iff bit_and_iff bit_or_iff bit_not_iff dest: bit_imp_le_length)
qed

section \<open>Range sets and the read gate\<close>

lemma RangeSet_covers_Nil: "RangeSet_covers [] p = False"
  by (simp add: RangeSet_covers_def)

lemma RangeSet_covers_Cons:
  "RangeSet_covers (x # xs) p = ((rstart x \<le> p \<and> p < rend x) \<or> RangeSet_covers xs p)"
  by (simp add: RangeSet_covers_def)

lemma RangeSet_covers_insert:
  "RangeSet_covers (RangeSet_insert r xs) p =
     ((rstart r \<le> p \<and> p < rend r) \<or> RangeSet_covers xs p)"
proof (induction xs arbitrary: r)
  case Nil
  show ?case by (simp add: RangeSet_covers_Cons RangeSet_covers_Nil)
next
  case (Cons x xs)
  show ?case
  proof (cases "rend r < rstart x")
    case True
    then show ?thesis by (simp add: RangeSet_covers_Cons)
  next
    case nb: False
    show ?thesis
    proof (cases "rend x < rstart r")
      case True
      then show ?thesis using nb Cons.IH [of r] by (auto simp: RangeSet_covers_Cons)
    next
      case False
      have m: "(min (rstart r) (rstart x) \<le> p \<and> p < max (rend r) (rend x)) =
               ((rstart r \<le> p \<and> p < rend r) \<or> (rstart x \<le> p \<and> p < rend x))"
        using nb False by (auto simp: min_def max_def)
      show ?thesis
        using nb False m
          Cons.IH [of "\<lparr>rstart = min (rstart r) (rstart x), rend = max (rend r) (rend x)\<rparr>"]
        by (auto simp: RangeSet_covers_Cons)
    qed
  qed
qed

lemma RangeSet_covers_add:
  "RangeSet_covers (RangeSet_add r rs) p =
     ((rstart r \<le> p \<and> p < rend r) \<or> RangeSet_covers rs p)"
  by (auto simp: RangeSet_add_def RangeSet_covers_insert)

lemma RangeSet_nonempty_insert:
  "rstart r < rend r \<Longrightarrow> RangeSet_nonempty xs \<Longrightarrow> RangeSet_nonempty (RangeSet_insert r xs)"
proof (induction xs arbitrary: r)
  case Nil
  then show ?case by (simp add: RangeSet_nonempty_def)
next
  case (Cons x xs)
  have x: "rstart x < rend x" and xs: "RangeSet_nonempty xs"
    using Cons.prems(2) by (simp_all add: RangeSet_nonempty_def)
  have mm: "min (rstart r) (rstart x) < max (rend r) (rend x)"
    using Cons.prems(1) x by (auto simp: min_def max_def)
  show ?case
    using Cons.prems x xs mm
      Cons.IH [of r]
      Cons.IH [of "\<lparr>rstart = min (rstart r) (rstart x), rend = max (rend r) (rend x)\<rparr>"]
    by (simp add: RangeSet_nonempty_def)
qed

lemma RangeSet_nonempty_add:
  "RangeSet_nonempty rs \<Longrightarrow> RangeSet_nonempty (RangeSet_add r rs)"
  by (simp add: RangeSet_add_def RangeSet_nonempty_insert)

lemma Range_overlaps_point:
  assumes "rstart r < rend r" and "rstart t < rend t"
  shows "Range_overlaps r t = (\<exists>p. (rstart r \<le> p \<and> p < rend r) \<and> rstart t \<le> p \<and> p < rend t)"
proof
  assume "Range_overlaps r t"
  then have o: "rstart r < rend t" "rstart t < rend r" by (simp_all add: Range_overlaps_def)
  have "(rstart r \<le> max (rstart r) (rstart t) \<and> max (rstart r) (rstart t) < rend r) \<and>
        rstart t \<le> max (rstart r) (rstart t) \<and> max (rstart r) (rstart t) < rend t"
    using o assms by (auto simp: max_def)
  then show "\<exists>p. (rstart r \<le> p \<and> p < rend r) \<and> rstart t \<le> p \<and> p < rend t" by blast
next
  assume "\<exists>p. (rstart r \<le> p \<and> p < rend r) \<and> rstart t \<le> p \<and> p < rend t"
  then show "Range_overlaps r t" by (auto simp: Range_overlaps_def)
qed

lemma RangeSet_overlaps_point:
  assumes "RangeSet_nonempty rs" and "rstart t < rend t"
  shows "RangeSet_overlaps rs t = (\<exists>p. RangeSet_covers rs p \<and> rstart t \<le> p \<and> p < rend t)"
  using assms(1)
proof (induction rs)
  case Nil
  show ?case by (simp add: RangeSet_overlaps_def RangeSet_covers_def)
next
  case (Cons x xs)
  have x: "rstart x < rend x" and xs: "RangeSet_nonempty xs"
    using Cons.prems by (simp_all add: RangeSet_nonempty_def)
  have "RangeSet_overlaps (x # xs) t = (Range_overlaps x t \<or> RangeSet_overlaps xs t)"
    by (simp add: RangeSet_overlaps_def)
  then show ?case
    using Cons.IH [OF xs] Range_overlaps_point [OF x assms(2)]
    by (auto simp: RangeSet_covers_Cons)
qed

lemma gate_readRange_covers:
  "RangeSet_covers (gate_readRange accs rs) p =
     (RangeSet_covers rs p \<or> list_ex (\<lambda>a. read_hits a p) accs)"
  by (induction accs arbitrary: rs)
    (auto simp: RangeSet_covers_add accessRange_def Range_ctor_def read_hits_def)

lemma gate_readRange_nonempty:
  "RangeSet_nonempty rs \<Longrightarrow> RangeSet_nonempty (gate_readRange accs rs)"
  by (induction accs arbitrary: rs) (simp_all add: RangeSet_nonempty_add)


section \<open>What a registration changes\<close>

lemma engine_addInstrRule_frame:
  "memCBInfos (snd (engine_addInstrRule r s)) = memCBInfos s \<and>
   memCBID (snd (engine_addInstrRule r s)) = memCBID s \<and>
   memReadGateCBID (snd (engine_addInstrRule r s)) = memReadGateCBID s \<and>
   memWriteGateCBID (snd (engine_addInstrRule r s)) = memWriteGateCBID s \<and>
   instrCBInfos (snd (engine_addInstrRule r s)) = instrCBInfos s \<and>
   memoryLoggingLevel (snd (engine_addInstrRule r s)) = memoryLoggingLevel s"
  by (simp add: engine_addInstrRule_def split: prod.split)

lemma engine_addInstrRules_frame:
  "memCBInfos (engine_addInstrRules rs s) = memCBInfos s \<and>
   memCBID (engine_addInstrRules rs s) = memCBID s \<and>
   memReadGateCBID (engine_addInstrRules rs s) = memReadGateCBID s \<and>
   memWriteGateCBID (engine_addInstrRules rs s) = memWriteGateCBID s \<and>
   instrCBInfos (engine_addInstrRules rs s) = instrCBInfos s \<and>
   memoryLoggingLevel (engine_addInstrRules rs s) = memoryLoggingLevel s"
  by (induction rs arbitrary: s) (simp_all add: engine_addInstrRule_frame)

lemma recordMemoryAccess_frame:
  "memCBInfos (snd (recordMemoryAccess t s)) = memCBInfos s \<and>
   memCBID (snd (recordMemoryAccess t s)) = memCBID s \<and>
   memReadGateCBID (snd (recordMemoryAccess t s)) = memReadGateCBID s \<and>
   memWriteGateCBID (snd (recordMemoryAccess t s)) = memWriteGateCBID s \<and>
   instrCBInfos (snd (recordMemoryAccess t s)) = instrCBInfos s"
  by (simp add: recordMemoryAccess_def Let_def engine_addInstrRules_frame)

lemma addMemAccessCB_frame:
  "memCBInfos (snd (addMemAccessCB t cb d s)) = memCBInfos s \<and>
   memCBID (snd (addMemAccessCB t cb d s)) = memCBID s \<and>
   memReadGateCBID (snd (addMemAccessCB t cb d s)) = memReadGateCBID s \<and>
   memWriteGateCBID (snd (addMemAccessCB t cb d s)) = memWriteGateCBID s \<and>
   instrCBInfos (snd (addMemAccessCB t cb d s)) = instrCBInfos s"
  by (simp add: addMemAccessCB_def Let_def engine_addInstrRule_frame recordMemoryAccess_frame
      split: option.split)

lemma addMemRangeCB_registered:
  assumes "addMemRangeCB lo hi t cb d s = (k, s')" and "k \<noteq> INVALID_EVENTID"
  shows "lo < hi \<and> t AND MEMORY_READ_WRITE \<noteq> 0 \<and> memCBID s < EVENTID_VIRTCB_MASK \<and>
         k = memCBID s OR EVENTID_VIRTCB_MASK \<and> memCBID s' = memCBID s + 1 \<and>
         instrCBInfos s' = instrCBInfos s \<and>
         (\<exists>f. cb = Some f \<and>
            memCBInfos s' = memCBInfos s @
              [(memCBID s, \<lparr>cb_type = t, cb_range = Range_ctor lo hi, cbk = f, cb_data = d\<rparr>)])"
proof -
  have lt: "lo < hi" using assms by (auto simp: addMemRangeCB_def split: if_splits)
  have ty: "t AND MEMORY_READ_WRITE \<noteq> 0"
    using assms lt by (auto simp: addMemRangeCB_def split: if_splits)
  obtain f where f: "cb = Some f"
    using assms lt ty by (cases cb) (auto simp: addMemRangeCB_def)
  define s1 where "s1 =
    (if t = MEMORY_READ \<and> memReadGateCBID s = INVALID_EVENTID then
       (case addMemAccessCB MEMORY_READ (Some memReadGate_ptr) MemCBInfosPtr s of
          (g, u) \<Rightarrow> u\<lparr>memReadGateCBID := g\<rparr>)
     else s)"
  define s2 where "s2 =
    (if t AND MEMORY_WRITE \<noteq> 0 \<and> memWriteGateCBID s1 = INVALID_EVENTID then
       (case addMemAccessCB MEMORY_READ_WRITE (Some memWriteGate_ptr) MemCBInfosPtr s1 of
          (g, u) \<Rightarrow> u\<lparr>memWriteGateCBID := g\<rparr>)
     else s1)"
  have fr1: "memCBInfos s1 = memCBInfos s \<and> memCBID s1 = memCBID s \<and>
             instrCBInfos s1 = instrCBInfos s"
    using addMemAccessCB_frame [of MEMORY_READ "Some memReadGate_ptr" MemCBInfosPtr s]
    by (simp add: s1_def case_prod_beta)
  have fr2: "memCBInfos s2 = memCBInfos s1 \<and> memCBID s2 = memCBID s1 \<and>
             instrCBInfos s2 = instrCBInfos s1"
    using addMemAccessCB_frame [of MEMORY_READ_WRITE "Some memWriteGate_ptr" MemCBInfosPtr s1]
    by (simp add: s2_def case_prod_beta)
  have unf: "addMemRangeCB lo hi t cb d s =
    (if \<not> memCBID s2 < EVENTID_VIRTCB_MASK then (INVALID_EVENTID, s2\<lparr>memCBID := memCBID s2 + 1\<rparr>)
     else (memCBID s2 OR EVENTID_VIRTCB_MASK,
           s2\<lparr>memCBID := memCBID s2 + 1,
              memCBInfos := memCBInfos s2 @
                [(memCBID s2, \<lparr>cb_type = t, cb_range = Range_ctor lo hi, cbk = f, cb_data = d\<rparr>)]\<rparr>))"
    using lt ty f by (simp add: addMemRangeCB_def Let_def s1_def [symmetric] s2_def [symmetric])
  show ?thesis
    using assms unf fr1 fr2 lt ty f by (auto split: if_splits)
qed

lemmas vm_eval_defs =
  addMemRangeCB_def addMemAddrCB_def addMemAccessCB_def recordMemoryAccess_def
  engine_addInstrRule_def Engine_addInstrRule_def Engine_register_def
  deleteInstrumentation_def deleteAllInstrumentations_def
  Engine_deleteInstrumentation_def Engine_deleteAllInstrumentations_def
  VM_ctor_def Engine_init_def getInstrRuleMemAccessRead_def getInstrRuleMemAccessWrite_def
  getCallbackGenerator_def INVALID_EVENTID_def EVENTID_VIRTCB_MASK_def
  MEMORY_READ_def MEMORY_WRITE_def MEMORY_READ_WRITE_def Range_ctor_def Let_def




section \<open>The action a gate returns\<close>

lemma gate_loop_returns:
  "map snd (fst (snd (gate_loop call test cbs i action w))) =
     fst (call_all call (filter test (map snd cbs)) w) \<and>
   snd (snd (gate_loop call test cbs i action w)) =
     snd (call_all call (filter test (map snd cbs)) w)"
proof (induction cbs arbitrary: i action w)
  case Nil
  show ?case by simp
next
  case (Cons p ps)
  show ?case
  proof (cases "test (snd p)")
    case False
    then show ?thesis using Cons.IH [of "Suc i" action w] by simp
  next
    case True
    obtain ret w' where c: "call (cbk (snd p)) (cb_data (snd p)) w = (ret, w')"
      by (cases "call (cbk (snd p)) (cb_data (snd p)) w")
    show ?thesis
      using True c by (simp add: case_prod_beta Cons.IH)
  qed
qed

lemma gate_loop_indices:
  "map fst (fst (snd (gate_loop call test cbs i action w))) =
     map (\<lambda>j. i + j) (filter (\<lambda>j. test (snd (cbs ! j))) [0..<length cbs])"
proof (induction cbs arbitrary: i action w)
  case Nil
  show ?case by simp
next
  case (Cons p ps)
  have sh: "map (\<lambda>j. i + j) (filter (\<lambda>j. test (snd ((p # ps) ! j))) (map Suc [0..<length ps])) =
            map (\<lambda>j. Suc i + j) (filter (\<lambda>j. test (snd (ps ! j))) [0..<length ps])"
    by (simp add: filter_map comp_def)
  have up: "[0..<length (p # ps)] = 0 # map Suc [0..<length ps]"
    by (simp add: upt_conv_Cons map_Suc_upt del: upt_Suc)
  show ?case
  proof (cases "test (snd p)")
    case False
    show ?thesis
      unfolding up using False sh by (simp add: Cons.IH)
  next
    case True
    obtain ret w' where c: "call (cbk (snd p)) (cb_data (snd p)) w = (ret, w')"
      by (cases "call (cbk (snd p)) (cb_data (snd p)) w")
    show ?thesis
      unfolding up using True c sh by (simp add: case_prod_beta Cons.IH)
  qed
qed

lemma gate_writeRange_covers:
  "RangeSet_covers (gate_writeRange accs rs) p =
     (RangeSet_covers rs p \<or> list_ex (\<lambda>a. write_hits a p) accs)"
  by (induction accs arbitrary: rs)
    (auto simp: RangeSet_covers_add accessRange_def Range_ctor_def write_hits_def)

lemma gate_writeRange_nonempty:
  "RangeSet_nonempty rs \<Longrightarrow> RangeSet_nonempty (gate_writeRange accs rs)"
  by (induction accs arbitrary: rs) (simp_all add: RangeSet_nonempty_add)

lemma access_overlaps_point:
  assumes "rstart t < rend t"
  shows "access_overlaps a t =
     (\<exists>p. accessAddress a \<le> p \<and> p < accessAddress a + ucast (accessSize a) \<and>
          rstart t \<le> p \<and> p < rend t)"
proof (cases "accessAddress a < accessAddress a + ucast (accessSize a)")
  case True
  have "rstart (accessRange a) < rend (accessRange a)"
    using True by (simp add: accessRange_def Range_ctor_def)
  from Range_overlaps_point [OF this assms]
  show ?thesis
    using True by (simp add: access_overlaps_def Range_overlaps_def accessRange_def Range_ctor_def)
next
  case False
  then have "\<not> (\<exists>p. accessAddress a \<le> p \<and> p < accessAddress a + ucast (accessSize a))"
    by auto
  then show ?thesis using False by (auto simp: access_overlaps_def)
qed

lemma readRange_overlaps_due:
  assumes "rstart t < rend t"
  shows "RangeSet_overlaps (gate_readRange accs []) t =
     list_ex (\<lambda>a. accessType a AND MEMORY_READ \<noteq> 0 \<and> access_overlaps a t) accs"
proof -
  have ne: "RangeSet_nonempty (gate_readRange accs [])"
    by (rule gate_readRange_nonempty) (simp add: RangeSet_nonempty_def)
  show ?thesis
    unfolding RangeSet_overlaps_point [OF ne assms] access_overlaps_point [OF assms]
    by (auto simp: gate_readRange_covers RangeSet_covers_Nil read_hits_def list_ex_iff)
qed

lemma writeRange_overlaps_due:
  assumes "rstart t < rend t"
  shows "RangeSet_overlaps (gate_writeRange accs []) t =
     list_ex (\<lambda>a. accessType a AND MEMORY_WRITE \<noteq> 0 \<and> access_overlaps a t) accs"
proof -
  have ne: "RangeSet_nonempty (gate_writeRange accs [])"
    by (rule gate_writeRange_nonempty) (simp add: RangeSet_nonempty_def)
  show ?thesis
    unfolding RangeSet_overlaps_point [OF ne assms] access_overlaps_point [OF assms]
    by (auto simp: gate_writeRange_covers RangeSet_covers_Nil write_hits_def list_ex_iff)
qed

lemma memReadGate_test_due:
  "rstart (cb_range info) < rend (cb_range info) \<Longrightarrow>
     memReadGate_test (gate_readRange accs []) info = read_due accs info"
  by (simp add: memReadGate_test_def read_due_def readRange_overlaps_due)

lemma memWriteGate_test_due:
  "rstart (cb_range info) < rend (cb_range info) \<Longrightarrow>
     memWriteGate_test (gate_readRange accs []) (gate_writeRange accs []) info = write_due accs info"
  by (simp add: memWriteGate_test_def write_due_def readRange_overlaps_due writeRange_overlaps_due)

lemma filter_read_due:
  "ranges_nonempty cbs \<Longrightarrow>
     filter (memReadGate_test (gate_readRange accs [])) (map snd cbs) =
     filter (read_due accs) (map snd cbs)"
  by (rule filter_cong) (auto simp: ranges_nonempty_def list_all_iff memReadGate_test_due)

lemma filter_write_due:
  "ranges_nonempty cbs \<Longrightarrow>
     filter (memWriteGate_test (gate_readRange accs []) (gate_writeRange accs [])) (map snd cbs) =
     filter (write_due accs) (map snd cbs)"
  by (rule filter_cong) (auto simp: ranges_nonempty_def list_all_iff memWriteGate_test_due)

lemma filter_read_due_idx:
  "ranges_nonempty cbs \<Longrightarrow>
     filter (\<lambda>j. memReadGate_test (gate_readRange accs []) (snd (cbs ! j))) [0..<length cbs] =
     filter (\<lambda>j. read_due accs (snd (cbs ! j))) [0..<length cbs]"
  by (rule filter_cong) (auto simp: ranges_nonempty_def list_all_length memReadGate_test_due)

lemma filter_write_due_idx:
  "ranges_nonempty cbs \<Longrightarrow>
     filter (\<lambda>j. memWriteGate_test (gate_readRange accs []) (gate_writeRange accs [])
        (snd (cbs ! j))) [0..<length cbs] =
     filter (\<lambda>j. write_due accs (snd (cbs ! j))) [0..<length cbs]"
  by (rule filter_cong) (auto simp: ranges_nonempty_def list_all_length memWriteGate_test_due)

lemma gate_loop_spec:
  "map fst (fst (snd (gate_loop call test cbs 0 CONTINUE w))) = due_indices test cbs \<and>
   map snd (fst (snd (gate_loop call test cbs 0 CONTINUE w))) = due_returns call test cbs w \<and>
   snd (snd (gate_loop call test cbs 0 CONTINUE w)) = due_world call test cbs w \<and>
   VMAction_val (fst (gate_loop call test cbs 0 CONTINUE w)) =
     Max (insert 0 (set (map VMAction_val (due_returns call test cbs w))))"
proof -
  have i: "map fst (fst (snd (gate_loop call test cbs 0 CONTINUE w))) = due_indices test cbs"
  proof -
    have "map ((+) (0::nat)) xs = xs" for xs by (induction xs) simp_all
    then show ?thesis unfolding gate_loop_indices due_indices_def .
  qed
  have r: "map snd (fst (snd (gate_loop call test cbs 0 CONTINUE w))) = due_returns call test cbs w"
    unfolding due_returns_def by (rule gate_loop_returns [THEN conjunct1])
  have s: "set (map (VMAction_val \<circ> snd) (fst (snd (gate_loop call test cbs 0 CONTINUE w)))) =
           set (map VMAction_val (due_returns call test cbs w))"
    unfolding r [symmetric] by simp
  have m: "VMAction_val (fst (gate_loop call test cbs 0 CONTINUE w)) =
     Max (insert 0 (set (map VMAction_val (due_returns call test cbs w))))"
    unfolding s [symmetric] using gate_loop_action [of call test cbs 0 CONTINUE w] by simp
  have v: "snd (snd (gate_loop call test cbs 0 CONTINUE w)) = due_world call test cbs w"
    unfolding due_world_def by (rule gate_loop_returns [THEN conjunct2])
  show ?thesis
    using i r v m by (intro conjI)
qed

lemma Max_returns_STOP:
  assumes "STOP \<in> set rets"
  shows "Max (insert 0 (set (map VMAction_val rets))) = 2"
proof -
  let ?S = "insert 0 (set (map VMAction_val rets))"
  have fin: "finite ?S" by simp
  have "2 \<in> ?S" using assms by force
  then have "2 \<le> Max ?S" using fin by (rule_tac Max_ge) auto
  moreover have "Max ?S \<le> 2"
    by (rule Max.boundedI) (auto simp: VMAction_val_le)
  ultimately show ?thesis by linarith
qed

lemma due_returns_cong:
  "filter due (map snd cbs) = filter due' (map snd cbs) \<Longrightarrow>
     due_returns call due cbs w = due_returns call due' cbs w \<and>
     due_world call due cbs w = due_world call due' cbs w"
  by (simp add: due_returns_def due_world_def)

text \<open>
  C3: the action a memory gate returns is the maximum, in the numeric order
  \<^verbatim>\<open>CONTINUE\<close> = 0 < \<^verbatim>\<open>BREAK_TO_VM\<close> = 1 < \<^verbatim>\<open>STOP\<close> = 2, of the actions that the
  callbacks of the due entries return (and of \<^verbatim>\<open>CONTINUE\<close>, with which it starts). The
  registry is any list of entries with non-empty ranges, which every registry built by
  the operations of the VM is (\<open>registry_ranges_nonempty\<close> below); the accesses, and what
  \<open>call\<close> makes a callback return, are arbitrary. Which entries are due is fixed by \<open>read_due\<close>
  and \<open>write_due\<close> from the accesses and the entry alone. The gate calls exactly the due
  entries, in the order of the registry, each callback in the world the one before it
  left: the indices it calls are \<open>due_indices\<close>, the actions it receives are
  \<open>due_returns\<close>, the world it leaves is \<open>due_world\<close>. So a gate returns \<^verbatim>\<open>STOP\<close> as soon
  as the callback of one due entry returns \<^verbatim>\<open>STOP\<close>, wherever the entry stands, and
  \<^verbatim>\<open>CONTINUE\<close> when no entry is due. This holds for \<^verbatim>\<open>memReadGate\<close> and
  \<^verbatim>\<open>memWriteGate\<close>.
\<close>

theorem memGate_action_is_max:
  assumes "ranges_nonempty cbs"
  shows
    "map fst (gate_calls (memReadGate call accs cbs w)) = due_indices (read_due accs) cbs \<and>
     map snd (gate_calls (memReadGate call accs cbs w)) =
       due_returns call (read_due accs) cbs w \<and>
     snd (snd (memReadGate call accs cbs w)) = due_world call (read_due accs) cbs w \<and>
     VMAction_val (gate_action (memReadGate call accs cbs w)) =
       Max (insert 0 (set (map VMAction_val (due_returns call (read_due accs) cbs w)))) \<and>
     (STOP \<in> set (due_returns call (read_due accs) cbs w) \<longrightarrow>
        gate_action (memReadGate call accs cbs w) = STOP) \<and>
     (due_indices (read_due accs) cbs = [] \<longrightarrow>
        gate_action (memReadGate call accs cbs w) = CONTINUE) \<and>
     map fst (gate_calls (memWriteGate call accs cbs w)) = due_indices (write_due accs) cbs \<and>
     map snd (gate_calls (memWriteGate call accs cbs w)) =
       due_returns call (write_due accs) cbs w \<and>
     snd (snd (memWriteGate call accs cbs w)) = due_world call (write_due accs) cbs w \<and>
     VMAction_val (gate_action (memWriteGate call accs cbs w)) =
       Max (insert 0 (set (map VMAction_val (due_returns call (write_due accs) cbs w)))) \<and>
     (STOP \<in> set (due_returns call (write_due accs) cbs w) \<longrightarrow>
        gate_action (memWriteGate call accs cbs w) = STOP) \<and>
     (due_indices (write_due accs) cbs = [] \<longrightarrow>
        gate_action (memWriteGate call accs cbs w) = CONTINUE)"
proof -
  let ?rt = "memReadGate_test (gate_readRange accs [])"
  let ?wt = "memWriteGate_test (gate_readRange accs []) (gate_writeRange accs [])"
  have ri: "due_indices ?rt cbs = due_indices (read_due accs) cbs"
    unfolding due_indices_def by (rule filter_read_due_idx [OF assms])
  have wi: "due_indices ?wt cbs = due_indices (write_due accs) cbs"
    unfolding due_indices_def by (rule filter_write_due_idx [OF assms])
  have rr: "due_returns call ?rt cbs w = due_returns call (read_due accs) cbs w"
    by (rule due_returns_cong [THEN conjunct1]) (rule filter_read_due [OF assms])
  have wr: "due_returns call ?wt cbs w = due_returns call (write_due accs) cbs w"
    by (rule due_returns_cong [THEN conjunct1]) (rule filter_write_due [OF assms])
  have rv: "due_world call ?rt cbs w = due_world call (read_due accs) cbs w"
    by (rule due_returns_cong [THEN conjunct2]) (rule filter_read_due [OF assms])
  have wv: "due_world call ?wt cbs w = due_world call (write_due accs) cbs w"
    by (rule due_returns_cong [THEN conjunct2]) (rule filter_write_due [OF assms])
  note rs = gate_loop_spec [of call ?rt cbs w, unfolded ri rr rv]
  note ws = gate_loop_spec [of call ?wt cbs w, unfolded wi wr wv]
  have r1: "map fst (gate_calls (memReadGate call accs cbs w)) = due_indices (read_due accs) cbs"
    unfolding gate_calls_def memReadGate_def by (rule rs [THEN conjunct1])
  have r2: "map snd (gate_calls (memReadGate call accs cbs w)) =
       due_returns call (read_due accs) cbs w"
    unfolding gate_calls_def memReadGate_def by (rule rs [THEN conjunct2, THEN conjunct1])
  have r3: "VMAction_val (gate_action (memReadGate call accs cbs w)) =
       Max (insert 0 (set (map VMAction_val (due_returns call (read_due accs) cbs w))))"
    unfolding gate_action_def memReadGate_def
    by (rule rs [THEN conjunct2, THEN conjunct2, THEN conjunct2])
  have r6: "snd (snd (memReadGate call accs cbs w)) = due_world call (read_due accs) cbs w"
    unfolding memReadGate_def by (rule rs [THEN conjunct2, THEN conjunct2, THEN conjunct1])
  have r4: "gate_action (memReadGate call accs cbs w) = STOP"
    if "STOP \<in> set (due_returns call (read_due accs) cbs w)"
    using r3 Max_returns_STOP [OF that] by (simp add: VMAction_val_STOP)
  have r5: "gate_action (memReadGate call accs cbs w) = CONTINUE"
    if "due_indices (read_due accs) cbs = []"
  proof -
    have "map snd (gate_calls (memReadGate call accs cbs w)) = []"
      using r1 that by simp
    then have "due_returns call (read_due accs) cbs w = []" using r2 by simp
    then show ?thesis using r3 by (simp add: VMAction_val_CONTINUE)
  qed
  have w1: "map fst (gate_calls (memWriteGate call accs cbs w)) = due_indices (write_due accs) cbs"
    unfolding gate_calls_def memWriteGate_def by (rule ws [THEN conjunct1])
  have w2: "map snd (gate_calls (memWriteGate call accs cbs w)) =
       due_returns call (write_due accs) cbs w"
    unfolding gate_calls_def memWriteGate_def by (rule ws [THEN conjunct2, THEN conjunct1])
  have w3: "VMAction_val (gate_action (memWriteGate call accs cbs w)) =
       Max (insert 0 (set (map VMAction_val (due_returns call (write_due accs) cbs w))))"
    unfolding gate_action_def memWriteGate_def
    by (rule ws [THEN conjunct2, THEN conjunct2, THEN conjunct2])
  have w6: "snd (snd (memWriteGate call accs cbs w)) = due_world call (write_due accs) cbs w"
    unfolding memWriteGate_def by (rule ws [THEN conjunct2, THEN conjunct2, THEN conjunct1])
  have w4: "gate_action (memWriteGate call accs cbs w) = STOP"
    if "STOP \<in> set (due_returns call (write_due accs) cbs w)"
    using w3 Max_returns_STOP [OF that] by (simp add: VMAction_val_STOP)
  have w5: "gate_action (memWriteGate call accs cbs w) = CONTINUE"
    if "due_indices (write_due accs) cbs = []"
  proof -
    have "map snd (gate_calls (memWriteGate call accs cbs w)) = []"
      using w1 that by simp
    then have "due_returns call (write_due accs) cbs w = []" using w2 by simp
    then show ?thesis using w3 by (simp add: VMAction_val_CONTINUE)
  qed
  show ?thesis
    apply (intro conjI impI)
               apply (rule r1)
              apply (rule r2)
             apply (rule r6)
            apply (rule r3)
           apply (erule r4)
          apply (erule r5)
         apply (rule w1)
        apply (rule w2)
       apply (rule w6)
      apply (rule w3)
     apply (erule w4)
    apply (erule w5)
    done
qed

text \<open>
  At the read gate, three callbacks over the bytes read return \<^verbatim>\<open>STOP\<close>, \<^verbatim>\<open>CONTINUE\<close>
  and \<^verbatim>\<open>BREAK_TO_VM\<close> in that order and a fourth lies elsewhere. At the write gate, a
  write callback returns \<^verbatim>\<open>BREAK_TO_VM\<close>, a read-write callback over the bytes read
  returns \<^verbatim>\<open>STOP\<close> and a last write callback returns \<^verbatim>\<open>CONTINUE\<close>; a read callback
  and a write callback elsewhere are not called. Both gates return \<^verbatim>\<open>STOP\<close> after
  three calls. When no access touches an entry, the gates return \<^verbatim>\<open>CONTINUE\<close>.
\<close>

lemmas ex_gate_defs =
  due_returns_def due_world_def due_indices_def read_due_def write_due_def access_overlaps_def
  ranges_nonempty_def ex_read_cbs_def ex_write_cbs_def ex_call_def ex_entry_def ex_read_def
  ex_write_def Range_ctor_def MEMORY_READ_def MEMORY_WRITE_def MEMORY_READ_WRITE_def

lemma ex_upt: "[0..<4] = [0, 1, 2, 3]" "[0..<5] = [0, 1, 2, 3, 4]"
  by code_simp+

lemma ex_read_due:
  "ranges_nonempty ex_read_cbs \<and>
   due_indices (read_due [ex_read]) ex_read_cbs = [0, 1, 3] \<and>
   due_returns ex_call (read_due [ex_read]) ex_read_cbs (0::nat) = [STOP, CONTINUE, BREAK_TO_VM] \<and>
   due_indices (read_due [ex_write]) ex_read_cbs = [] \<and>
   due_world ex_call (read_due [ex_read]) ex_read_cbs (0::nat) = 3"
  by (simp add: ex_gate_defs ex_upt)

lemma ex_write_due:
  "ranges_nonempty ex_write_cbs \<and>
   due_indices (write_due [ex_write, ex_read]) ex_write_cbs = [0, 1, 4] \<and>
   due_returns ex_call (write_due [ex_write, ex_read]) ex_write_cbs (0::nat) =
     [BREAK_TO_VM, STOP, CONTINUE] \<and>
   due_indices (write_due []) ex_write_cbs = [] \<and>
   due_world ex_call (write_due [ex_write, ex_read]) ex_write_cbs (0::nat) = 3"
  by (simp add: ex_gate_defs ex_upt)

theorem memGate_action_is_max_witness:
  "ranges_nonempty ex_read_cbs \<and> ranges_nonempty ex_write_cbs \<and>
   STOP \<in> set (due_returns ex_call (read_due [ex_read]) ex_read_cbs (0::nat)) \<and>
   map fst (gate_calls (memReadGate ex_call [ex_read] ex_read_cbs (0::nat))) = [0, 1, 3] \<and>
   map snd (gate_calls (memReadGate ex_call [ex_read] ex_read_cbs (0::nat))) =
     [STOP, CONTINUE, BREAK_TO_VM] \<and>
   snd (snd (memReadGate ex_call [ex_read] ex_read_cbs (0::nat))) = 3 \<and>
   gate_action (memReadGate ex_call [ex_read] ex_read_cbs (0::nat)) = STOP \<and>
   STOP \<in> set (due_returns ex_call (write_due [ex_write, ex_read]) ex_write_cbs (0::nat)) \<and>
   map fst (gate_calls (memWriteGate ex_call [ex_write, ex_read] ex_write_cbs (0::nat))) =
     [0, 1, 4] \<and>
   map snd (gate_calls (memWriteGate ex_call [ex_write, ex_read] ex_write_cbs (0::nat))) =
     [BREAK_TO_VM, STOP, CONTINUE] \<and>
   snd (snd (memWriteGate ex_call [ex_write, ex_read] ex_write_cbs (0::nat))) = 3 \<and>
   gate_action (memWriteGate ex_call [ex_write, ex_read] ex_write_cbs (0::nat)) = STOP \<and>
   due_indices (read_due [ex_write]) ex_read_cbs = [] \<and>
   gate_action (memReadGate ex_call [ex_write] ex_read_cbs (0::nat)) = CONTINUE \<and>
   due_indices (write_due []) ex_write_cbs = [] \<and>
   gate_action (memWriteGate ex_call [] ex_write_cbs (0::nat)) = CONTINUE"
proof -
  note c2 = conjunct2
  note rn = ex_read_due [THEN conjunct1]
  note ri = ex_read_due [THEN c2, THEN conjunct1]
  note rr = ex_read_due [THEN c2, THEN c2, THEN conjunct1]
  note r0 = ex_read_due [THEN c2, THEN c2, THEN c2, THEN conjunct1]
  note rv = ex_read_due [THEN c2, THEN c2, THEN c2, THEN c2]
  note wn = ex_write_due [THEN conjunct1]
  note wi = ex_write_due [THEN c2, THEN conjunct1]
  note wr = ex_write_due [THEN c2, THEN c2, THEN conjunct1]
  note w0 = ex_write_due [THEN c2, THEN c2, THEN c2, THEN conjunct1]
  note wv = ex_write_due [THEN c2, THEN c2, THEN c2, THEN c2]
  note a = memGate_action_is_max [OF rn, of ex_call "[ex_read]" "0::nat"]
  note b = memGate_action_is_max [OF wn, of ex_call "[ex_write, ex_read]" "0::nat"]
  note c = memGate_action_is_max [OF rn, of ex_call "[ex_write]" "0::nat"]
  note d = memGate_action_is_max [OF wn, of ex_call "[]" "0::nat"]
  note bw = b [THEN c2, THEN c2, THEN c2, THEN c2, THEN c2, THEN c2]
  note dw = d [THEN c2, THEN c2, THEN c2, THEN c2, THEN c2, THEN c2]
  have rs: "STOP \<in> set (due_returns ex_call (read_due [ex_read]) ex_read_cbs (0::nat))"
    unfolding rr by simp
  have ws: "STOP \<in> set (due_returns ex_call (write_due [ex_write, ex_read]) ex_write_cbs (0::nat))"
    unfolding wr by simp
  have a1: "map fst (gate_calls (memReadGate ex_call [ex_read] ex_read_cbs (0::nat))) = [0, 1, 3]"
    unfolding a [THEN conjunct1] by (rule ri)
  have a2: "map snd (gate_calls (memReadGate ex_call [ex_read] ex_read_cbs (0::nat))) =
     [STOP, CONTINUE, BREAK_TO_VM]"
    unfolding a [THEN c2, THEN conjunct1] by (rule rr)
  have a3: "snd (snd (memReadGate ex_call [ex_read] ex_read_cbs (0::nat))) = 3"
    unfolding a [THEN c2, THEN c2, THEN conjunct1] by (rule rv)
  have a4: "gate_action (memReadGate ex_call [ex_read] ex_read_cbs (0::nat)) = STOP"
    by (rule a [THEN c2, THEN c2, THEN c2, THEN c2, THEN conjunct1, THEN mp, OF rs])
  have b1: "map fst (gate_calls (memWriteGate ex_call [ex_write, ex_read] ex_write_cbs (0::nat))) =
     [0, 1, 4]"
    unfolding bw [THEN conjunct1] by (rule wi)
  have b2: "map snd (gate_calls (memWriteGate ex_call [ex_write, ex_read] ex_write_cbs (0::nat))) =
     [BREAK_TO_VM, STOP, CONTINUE]"
    unfolding bw [THEN c2, THEN conjunct1] by (rule wr)
  have b3: "snd (snd (memWriteGate ex_call [ex_write, ex_read] ex_write_cbs (0::nat))) = 3"
    unfolding bw [THEN c2, THEN c2, THEN conjunct1] by (rule wv)
  have b4: "gate_action (memWriteGate ex_call [ex_write, ex_read] ex_write_cbs (0::nat)) = STOP"
    by (rule bw [THEN c2, THEN c2, THEN c2, THEN c2, THEN conjunct1, THEN mp, OF ws])
  have c5: "gate_action (memReadGate ex_call [ex_write] ex_read_cbs (0::nat)) = CONTINUE"
    by (rule c [THEN c2, THEN c2, THEN c2, THEN c2, THEN c2, THEN conjunct1, THEN mp, OF r0])
  have d5: "gate_action (memWriteGate ex_call [] ex_write_cbs (0::nat)) = CONTINUE"
    by (rule dw [THEN c2, THEN c2, THEN c2, THEN c2, THEN c2, THEN mp, OF w0])
  show ?thesis
    using rn wn rs a1 a2 a3 a4 ws b1 b2 b3 b4 r0 c5 w0 d5 by (intro conjI)
qed

section \<open>Invalid arguments\<close>













section \<open>Memory accesses of a basic block\<close>

lemma u16_succ:
  assumes "(it::u16) \<le> bound" and "bound \<noteq> - 1"
  shows "unat (it + 1) = Suc (unat it)"
proof -
  have "it \<noteq> - 1" using assms by (metis word_order.extremum_unique)
  then have "1 + it \<noteq> 0" by (metis add.commute add_eq_0_iff)
  then have "unat (1 + it) = Suc (unat it)" by (rule unatSuc)
  then show ?thesis by (simp add: add.commute)
qed

lemma getBBMemoryAccess_loop_result:
  assumes "bound \<noteq> - 1"
  shows "getBBMemoryAccess_loop b bound instID pre it acc =
     Some (acc @ concat (map (\<lambda>i. instAccesses b (of_nat i) (of_nat i \<noteq> instID \<or> \<not> pre))
                         [unat it ..< Suc (unat bound)]))"
proof (induction "Suc (unat bound) - unat it" arbitrary: it acc)
  case 0
  then have "\<not> it \<le> bound" by (simp add: word_le_nat_alt)
  then show ?case using 0 by (subst getBBMemoryAccess_loop.simps) simp
next
  case (Suc n)
  then have le: "it \<le> bound" by (simp add: word_le_nat_alt)
  have su: "unat (it + 1) = Suc (unat it)" using le assms by (rule u16_succ)
  have n: "n = Suc (unat bound) - unat (it + 1)" using Suc.hyps(2) su by simp
  have ul: "unat it < Suc (unat bound)" using le by (simp add: word_le_nat_alt)
  have up: "[unat it ..< Suc (unat bound)] = unat it # [unat (it + 1) ..< Suc (unat bound)]"
    using ul su by (simp add: upt_conv_Cons del: upt_Suc)
  have step: "getBBMemoryAccess_loop b bound instID pre it acc =
     getBBMemoryAccess_loop b bound instID pre (it + 1)
       (acc @ instAccesses b it (it \<noteq> instID \<or> \<not> pre))"
    using le by (subst getBBMemoryAccess_loop.simps) simp
  show ?case
    unfolding step Suc.hyps(1) [OF n] up by simp
qed

text \<open>
  C7: inside a block, \<^verbatim>\<open>getBBMemoryAccess\<close> returns the entries of the instructions of
  the current sequence from its first one to \<^verbatim>\<open>min(endInstID, instID)\<close>, concatenated
  by increasing instruction id; no instruction after the current one contributes. When
  the current instruction lies in the current sequence these are the entries recorded
  after each earlier instruction followed by those of the current instruction, taken
  before the instruction at a PREINST point and after it otherwise. The loop counter is
  a \<^verbatim>\<open>uint16_t\<close>: the call returns provided the bound is not 65535.
\<close>

theorem getBBMemoryAccess_entries:
  assumes "curExecBlock (engine s) = Some b"
    and "min (seqEnd b (currentSeqID b)) (currentInstID b) \<noteq> 0xFFFF"
  shows "getBBMemoryAccess s =
     (Some (concat (map (\<lambda>i. instAccesses b (of_nat i)
                              (of_nat i \<noteq> currentInstID b \<or> \<not> isPreInst (engine s)))
        [unat (seqStart b (currentSeqID b)) ..<
         Suc (unat (min (seqEnd b (currentSeqID b)) (currentInstID b)))])), s) \<and>
     unat (min (seqEnd b (currentSeqID b)) (currentInstID b)) \<le> unat (currentInstID b) \<and>
     (seqStart b (currentSeqID b) \<le> currentInstID b \<and>
      currentInstID b \<le> seqEnd b (currentSeqID b) \<longrightarrow>
        fst (getBBMemoryAccess s) =
          Some (concat (map (\<lambda>i. instAccesses b (of_nat i) True)
                  [unat (seqStart b (currentSeqID b)) ..< unat (currentInstID b)]) @
                instAccesses b (currentInstID b) (\<not> isPreInst (engine s))))"
proof -
  let ?bound = "min (seqEnd b (currentSeqID b)) (currentInstID b)"
  let ?f = "\<lambda>i. instAccesses b (of_nat i)
                              (of_nat i \<noteq> currentInstID b \<or> \<not> isPreInst (engine s))"
  have "(- 1 :: u16) = 0xFFFF" by simp
  then have b: "?bound \<noteq> - 1" using assms(2) by (simp only:) simp
  have g: "getBBMemoryAccess s =
     (Some (concat (map ?f [unat (seqStart b (currentSeqID b)) ..< Suc (unat ?bound)])), s)"
    using assms(1) getBBMemoryAccess_loop_result [OF b]
    by (simp add: getBBMemoryAccess_def Let_def)
  have le: "unat ?bound \<le> unat (currentInstID b)"
    by (simp add: word_le_nat_alt [symmetric])
  have c: "fst (getBBMemoryAccess s) =
          Some (concat (map (\<lambda>i. instAccesses b (of_nat i) True)
                  [unat (seqStart b (currentSeqID b)) ..< unat (currentInstID b)]) @
                instAccesses b (currentInstID b) (\<not> isPreInst (engine s)))"
    if h: "seqStart b (currentSeqID b) \<le> currentInstID b \<and>
           currentInstID b \<le> seqEnd b (currentSeqID b)"
  proof -
    have m: "?bound = currentInstID b" using h by (auto simp: min_def)
    have sl: "unat (seqStart b (currentSeqID b)) \<le> unat (currentInstID b)"
      using h by (simp add: word_le_nat_alt)
    have before: "(of_nat i :: u16) \<noteq> currentInstID b" if "i < unat (currentInstID b)" for i
    proof
      assume e: "(of_nat i :: u16) = currentInstID b"
      have "i < 2 ^ LENGTH(16)" using that unsigned_less [of "currentInstID b"]
        by (metis order_less_trans)
      then have "unat (of_nat i :: u16) = i" by (simp add: unat_of_nat)
      then show False using e that by simp
    qed
    have mp: "map ?f [unat (seqStart b (currentSeqID b)) ..< unat (currentInstID b)] =
          map (\<lambda>i. instAccesses b (of_nat i) True)
            [unat (seqStart b (currentSeqID b)) ..< unat (currentInstID b)]"
      by (rule map_cong) (simp_all add: before)
    have up2: "[unat (seqStart b (currentSeqID b)) ..< Suc (unat (currentInstID b))] =
               [unat (seqStart b (currentSeqID b)) ..< unat (currentInstID b)] @
               [unat (currentInstID b)]"
      using sl by simp
    have "concat (map ?f [unat (seqStart b (currentSeqID b)) ..< Suc (unat (currentInstID b))]) =
          concat (map ?f [unat (seqStart b (currentSeqID b)) ..< unat (currentInstID b)]) @
          ?f (unat (currentInstID b))"
      unfolding up2 by simp
    also have "?f (unat (currentInstID b)) =
               instAccesses b (currentInstID b) (\<not> isPreInst (engine s))"
      by simp
    finally show ?thesis unfolding g m mp by simp
  qed
  show ?thesis using g le c by blast
qed

theorem getBBMemoryAccess_entries_witness:
  "curExecBlock (engine ex_vm_in_block) = Some ex_block \<and>
   min (seqEnd ex_block (currentSeqID ex_block)) (currentInstID ex_block) \<noteq> 0xFFFF \<and>
   seqStart ex_block (currentSeqID ex_block) \<le> currentInstID ex_block \<and>
   currentInstID ex_block \<le> seqEnd ex_block (currentSeqID ex_block) \<and>
   getBBMemoryAccess ex_vm_in_block = (Some [ex_read\<lparr>accessValue := 1\<rparr>], ex_vm_in_block)"
proof -
  have a: "curExecBlock (engine ex_vm_in_block) = Some ex_block"
    by (simp add: ex_vm_in_block_def)
  have b: "min (seqEnd ex_block (currentSeqID ex_block)) (currentInstID ex_block) \<noteq> 0xFFFF"
    by (simp add: ex_block_def)
  have c: "seqStart ex_block (currentSeqID ex_block) \<le> currentInstID ex_block \<and>
           currentInstID ex_block \<le> seqEnd ex_block (currentSeqID ex_block)"
    by (simp add: ex_block_def)
  have d: "isPreInst (engine ex_vm_in_block)" by (simp add: ex_vm_in_block_def)
  have u: "[Suc 0 ..< 3] = [Suc 0, 2]" "[Suc 0 ..< 2] = [Suc 0]" by code_simp+
  show ?thesis
    using a b c d getBBMemoryAccess_entries [OF a b]
    by (simp add: ex_block_def u)
qed

section \<open>The top bit of an event id\<close>

lemma mask_bit: "((k::u32) AND EVENTID_VIRTCB_MASK \<noteq> 0) = bit k 31"
proof -
  have m: "EVENTID_VIRTCB_MASK = 2 ^ 31" by (simp add: EVENTID_VIRTCB_MASK_def)
  have "(k AND 2 ^ 31 = 0) = (\<not> bit k 31)" by (rule and_exp_eq_0_iff_not_bit)
  then show ?thesis unfolding m by blast
qed

lemma Engine_register_id:
  "fst (Engine_register x e) \<noteq> INVALID_EVENTID \<Longrightarrow> \<not> bit (fst (Engine_register x e)) 31"
  using mask_less_and [of "instrRulesCounter e"]
  by (auto simp: Engine_register_def mask_bit [symmetric] split: if_splits)

lemma engine_addInstrRule_id:
  "fst (engine_addInstrRule r s) \<noteq> INVALID_EVENTID \<Longrightarrow> \<not> bit (fst (engine_addInstrRule r s)) 31"
  using Engine_register_id [of "RuleEntry r" "engine s"]
  by (simp add: engine_addInstrRule_def Engine_addInstrRule_def case_prod_beta)

lemma memCBInfos_erase_None: "(memCBInfos_erase k l = None) = (k \<notin> fst ` set l)"
  by (induction l) (auto split: option.splits)

lemma memCBInfos_erase_Some:
  "memCBInfos_erase k l = Some l' \<Longrightarrow>
     \<exists>xs e ys. l = xs @ (k, e) # ys \<and> l' = xs @ ys \<and> k \<notin> fst ` set xs"
proof (induction l arbitrary: l')
  case Nil
  then show ?case by simp
next
  case (Cons p ps)
  show ?case
  proof (cases "fst p = k")
    case True
    then have "l' = ps" using Cons.prems by simp
    then have "p # ps = [] @ (k, snd p) # ps \<and> l' = [] @ ps \<and> k \<notin> fst ` set []"
      using True by (cases p) simp
    then show ?thesis by blast
  next
    case False
    then obtain ps' where e: "memCBInfos_erase k ps = Some ps'" and l': "l' = p # ps'"
      using Cons.prems by (auto split: option.splits)
    from Cons.IH [OF e] obtain xs e' ys where
      "ps = xs @ (k, e') # ys" "ps' = xs @ ys" "k \<notin> fst ` set xs" by blast
    then have "p # ps = (p # xs) @ (k, e') # ys \<and> l' = (p # xs) @ ys \<and> k \<notin> fst ` set (p # xs)"
      using False l' by simp
    then show ?thesis by blast
  qed
qed

lemma addMemRangeCB_msb:
  "fst (addMemRangeCB lo hi t cb d s) \<noteq> INVALID_EVENTID \<Longrightarrow>
     bit (fst (addMemRangeCB lo hi t cb d s)) 31"
proof -
  assume ne: "fst (addMemRangeCB lo hi t cb d s) \<noteq> INVALID_EVENTID"
  have eq: "addMemRangeCB lo hi t cb d s =
    (fst (addMemRangeCB lo hi t cb d s), snd (addMemRangeCB lo hi t cb d s))" by simp
  from addMemRangeCB_registered [OF eq ne]
  have "fst (addMemRangeCB lo hi t cb d s) = memCBID s OR EVENTID_VIRTCB_MASK" by blast
  then show ?thesis using mask_or_and [of "memCBID s"] by (simp add: mask_bit [symmetric])
qed

lemma addMemAddrCB_msb:
  "fst (addMemAddrCB a t cb d s) \<noteq> INVALID_EVENTID \<Longrightarrow> bit (fst (addMemAddrCB a t cb d s)) 31"
  using addMemRangeCB_msb [of a "a + 1" t cb d s]
  by (cases cb) (simp_all add: addMemAddrCB_def)

lemma engine_registrations_msb:
  "(fst (addCodeCB pos cb d s) \<noteq> INVALID_EVENTID \<longrightarrow> \<not> bit (fst (addCodeCB pos cb d s)) 31) \<and>
   (fst (addCodeAddrCB a pos cb d s) \<noteq> INVALID_EVENTID \<longrightarrow>
      \<not> bit (fst (addCodeAddrCB a pos cb d s)) 31) \<and>
   (fst (addCodeRangeCB lo hi pos cb d s) \<noteq> INVALID_EVENTID \<longrightarrow>
      \<not> bit (fst (addCodeRangeCB lo hi pos cb d s)) 31) \<and>
   (fst (addMnemonicCB m pos cb d s) \<noteq> INVALID_EVENTID \<longrightarrow>
      \<not> bit (fst (addMnemonicCB m pos cb d s)) 31)"
  using engine_addInstrRule_id
  by (auto simp: addCodeCB_def addCodeAddrCB_def addCodeRangeCB_def addMnemonicCB_def
      split: option.splits)

lemma instrRule_registrations_msb:
  "(fst (addInstrRule f ty d s) \<noteq> INVALID_EVENTID \<longrightarrow> \<not> bit (fst (addInstrRule f ty d s)) 31) \<and>
   (fst (addInstrRuleC g ty u s) \<noteq> INVALID_EVENTID \<longrightarrow>
      \<not> bit (fst (addInstrRuleC g ty u s)) 31) \<and>
   (fst (addInstrRuleRange lo hi f ty d s) \<noteq> INVALID_EVENTID \<longrightarrow>
      \<not> bit (fst (addInstrRuleRange lo hi f ty d s)) 31) \<and>
   (fst (addInstrRuleRangeC lo hi g ty u s) \<noteq> INVALID_EVENTID \<longrightarrow>
      \<not> bit (fst (addInstrRuleRangeC lo hi g ty u s)) 31) \<and>
   (fst (addInstrRuleRangeSet rs f ty d s) \<noteq> INVALID_EVENTID \<longrightarrow>
      \<not> bit (fst (addInstrRuleRangeSet rs f ty d s)) 31)"
  using engine_addInstrRule_id
  by (auto simp: addInstrRule_def addInstrRuleC_def addInstrRuleRange_def addInstrRuleRangeC_def
      addInstrRuleRangeSet_def Let_def case_prod_beta)

lemma deleteInstrumentation_virtual:
  assumes "bit k 31"
  shows "engine (snd (deleteInstrumentation k s)) = engine s \<and>
         instrCBInfos (snd (deleteInstrumentation k s)) = instrCBInfos s \<and>
         fst (deleteInstrumentation k s) =
           (k AND NOT EVENTID_VIRTCB_MASK \<in> fst ` set (memCBInfos s)) \<and>
         (if k AND NOT EVENTID_VIRTCB_MASK \<in> fst ` set (memCBInfos s)
          then \<exists>xs e ys. memCBInfos s = xs @ (k AND NOT EVENTID_VIRTCB_MASK, e) # ys \<and>
                 k AND NOT EVENTID_VIRTCB_MASK \<notin> fst ` set xs \<and>
                 memCBInfos (snd (deleteInstrumentation k s)) = xs @ ys
          else snd (deleteInstrumentation k s) = s)"
proof (cases "memCBInfos_erase (k AND NOT EVENTID_VIRTCB_MASK) (memCBInfos s)")
  case None
  then show ?thesis
    using assms memCBInfos_erase_None [of "k AND NOT EVENTID_VIRTCB_MASK" "memCBInfos s"]
    by (simp add: deleteInstrumentation_def mask_bit)
next
  case (Some l)
  have "k AND NOT EVENTID_VIRTCB_MASK \<in> fst ` set (memCBInfos s)"
    using Some memCBInfos_erase_None [of "k AND NOT EVENTID_VIRTCB_MASK" "memCBInfos s"] by simp
  then show ?thesis
    using assms Some memCBInfos_erase_Some [OF Some]
    by (simp add: deleteInstrumentation_def mask_bit) blast
qed

lemma deleteInstrumentation_engine:
  assumes "\<not> bit k 31"
  shows "memCBInfos (snd (deleteInstrumentation k s)) = memCBInfos s \<and>
         fst (deleteInstrumentation k s) = (k \<in> fst ` set (instrRules (engine s))) \<and>
         instrRules (engine (snd (deleteInstrumentation k s))) =
           filter (\<lambda>p. fst p \<noteq> k) (instrRules (engine s)) \<and>
         instrCBInfos (snd (deleteInstrumentation k s)) =
           filter (\<lambda>p. fst p \<noteq> k) (instrCBInfos s)"
proof -
  have nf: "filter (\<lambda>p. fst p \<noteq> k) l = l" if "\<not> list_ex (\<lambda>p. fst p = k) l"
    for l :: "(u32 \<times> EngineEntry) list"
    using that by (induction l) auto
  show ?thesis
    using assms nf [of "instrRules (engine s)"]
    by (auto simp: deleteInstrumentation_def mask_bit Engine_deleteInstrumentation_def Let_def
        list_ex_iff)
qed

text \<open>
  C4: an id returned by a successful \<^verbatim>\<open>addMemRangeCB\<close> or \<^verbatim>\<open>addMemAddrCB\<close> has bit 31
  set; an id returned by a successful engine rule registration (\<^verbatim>\<open>addCodeCB\<close>,
  \<^verbatim>\<open>addCodeAddrCB\<close>, \<^verbatim>\<open>addCodeRangeCB\<close>, \<^verbatim>\<open>addMnemonicCB\<close>, every \<^verbatim>\<open>addInstrRule\<close>)
  has bit 31 clear; and \<^verbatim>\<open>deleteInstrumentation\<close> dispatches on that bit. With the bit
  set it leaves the engine alone and erases the first registry entry whose id is the
  argument without the bit (returning whether there was one); with the bit clear it
  leaves the registry alone and removes the engine entries with that id (returning
  whether the engine had one).
\<close>

theorem event_id_top_bit:
  "(fst (addMemRangeCB lo hi t cb d s) \<noteq> INVALID_EVENTID \<longrightarrow>
      bit (fst (addMemRangeCB lo hi t cb d s)) 31) \<and>
   (fst (addMemAddrCB a t cb d s) \<noteq> INVALID_EVENTID \<longrightarrow>
      bit (fst (addMemAddrCB a t cb d s)) 31) \<and>
   (fst (addCodeCB pos cb d s) \<noteq> INVALID_EVENTID \<longrightarrow> \<not> bit (fst (addCodeCB pos cb d s)) 31) \<and>
   (fst (addCodeAddrCB a pos cb d s) \<noteq> INVALID_EVENTID \<longrightarrow>
      \<not> bit (fst (addCodeAddrCB a pos cb d s)) 31) \<and>
   (fst (addCodeRangeCB lo hi pos cb d s) \<noteq> INVALID_EVENTID \<longrightarrow>
      \<not> bit (fst (addCodeRangeCB lo hi pos cb d s)) 31) \<and>
   (fst (addMnemonicCB m pos cb d s) \<noteq> INVALID_EVENTID \<longrightarrow>
      \<not> bit (fst (addMnemonicCB m pos cb d s)) 31) \<and>
   (fst (addInstrRule f ty d s) \<noteq> INVALID_EVENTID \<longrightarrow> \<not> bit (fst (addInstrRule f ty d s)) 31) \<and>
   (fst (addInstrRuleC g ty u s) \<noteq> INVALID_EVENTID \<longrightarrow>
      \<not> bit (fst (addInstrRuleC g ty u s)) 31) \<and>
   (fst (addInstrRuleRange lo hi f ty d s) \<noteq> INVALID_EVENTID \<longrightarrow>
      \<not> bit (fst (addInstrRuleRange lo hi f ty d s)) 31) \<and>
   (fst (addInstrRuleRangeC lo hi g ty u s) \<noteq> INVALID_EVENTID \<longrightarrow>
      \<not> bit (fst (addInstrRuleRangeC lo hi g ty u s)) 31) \<and>
   (fst (addInstrRuleRangeSet rs f ty d s) \<noteq> INVALID_EVENTID \<longrightarrow>
      \<not> bit (fst (addInstrRuleRangeSet rs f ty d s)) 31) \<and>
   (bit k 31 \<longrightarrow>
      engine (snd (deleteInstrumentation k s)) = engine s \<and>
      instrCBInfos (snd (deleteInstrumentation k s)) = instrCBInfos s \<and>
      fst (deleteInstrumentation k s) =
        (k AND NOT EVENTID_VIRTCB_MASK \<in> fst ` set (memCBInfos s)) \<and>
      (if k AND NOT EVENTID_VIRTCB_MASK \<in> fst ` set (memCBInfos s)
       then \<exists>xs e ys. memCBInfos s = xs @ (k AND NOT EVENTID_VIRTCB_MASK, e) # ys \<and>
              k AND NOT EVENTID_VIRTCB_MASK \<notin> fst ` set xs \<and>
              memCBInfos (snd (deleteInstrumentation k s)) = xs @ ys
       else snd (deleteInstrumentation k s) = s)) \<and>
   (\<not> bit k 31 \<longrightarrow>
      memCBInfos (snd (deleteInstrumentation k s)) = memCBInfos s \<and>
      fst (deleteInstrumentation k s) = (k \<in> fst ` set (instrRules (engine s))) \<and>
      instrRules (engine (snd (deleteInstrumentation k s))) =
        filter (\<lambda>p. fst p \<noteq> k) (instrRules (engine s)) \<and>
      instrCBInfos (snd (deleteInstrumentation k s)) =
        filter (\<lambda>p. fst p \<noteq> k) (instrCBInfos s))"
proof -
  note A = addMemRangeCB_msb [of lo hi t cb d s]
  note B = addMemAddrCB_msb [of a t cb d s]
  note E = engine_registrations_msb [of pos cb d s a lo hi m]
  note I = instrRule_registrations_msb [of f ty d s g u lo hi rs]
  note V = deleteInstrumentation_virtual [of k s]
  note W = deleteInstrumentation_engine [of k s]
  show ?thesis
    apply (intro conjI)
                apply (rule impI, erule A)
               apply (rule impI, erule B)
              apply (rule E [THEN conjunct1])
             apply (rule E [THEN conjunct2, THEN conjunct1])
            apply (rule E [THEN conjunct2, THEN conjunct2, THEN conjunct1])
           apply (rule E [THEN conjunct2, THEN conjunct2, THEN conjunct2])
          apply (rule I [THEN conjunct1])
         apply (rule I [THEN conjunct2, THEN conjunct1])
        apply (rule I [THEN conjunct2, THEN conjunct2, THEN conjunct1])
       apply (rule I [THEN conjunct2, THEN conjunct2, THEN conjunct2, THEN conjunct1])
      apply (rule I [THEN conjunct2, THEN conjunct2, THEN conjunct2, THEN conjunct2])
     apply (rule impI, erule V)
    apply (rule impI, erule W)
    done
qed

lemma ex_virtual_id:
  "addMemRangeCB 0 64 MEMORY_READ (Some (UserInstCallback 2)) (UserPtr 0) VM_ctor =
     (0x80000000,
      \<lparr>engine = \<lparr>instrRules =
          [(0, RuleEntry (InstrRuleBasic DoesReadAccess ShadowGenerator PREINST False)),
           (1, RuleEntry (InstrRuleBasic DoesReadAccess
                 (CallbackGenerator memReadGate_ptr MemCBInfosPtr) PREINST True))],
          instrRulesCounter = 2, curExecBlock = None, isPreInst = False\<rparr>,
       memoryLoggingLevel = 1,
       memCBInfos = [(0, ex_entry MEMORY_READ 0 64 2)],
       memCBID = 1, memReadGateCBID = 1, memWriteGateCBID = INVALID_EVENTID,
       instrCBInfos = []\<rparr>)"
  by (simp add: vm_eval_defs ex_entry_def)

lemma ex_engine_id:
  "addCodeCB PREINST (Some (UserInstCallback 0)) (UserPtr 0) VM_ctor =
     (0, VM_ctor\<lparr>engine := Engine_init\<lparr>instrRules :=
          [(0, RuleEntry (InstrRuleBasic True_cond
                 (CallbackGenerator (UserInstCallback 0) (UserPtr 0)) PREINST True))],
          instrRulesCounter := 1\<rparr>\<rparr>)"
  by (simp add: addCodeCB_def vm_eval_defs)

theorem event_id_top_bit_witness:
  "fst (addMemRangeCB 0 64 MEMORY_READ (Some (UserInstCallback 2)) (UserPtr 0) VM_ctor) \<noteq>
     INVALID_EVENTID \<and>
   bit (fst (addMemRangeCB 0 64 MEMORY_READ (Some (UserInstCallback 2)) (UserPtr 0) VM_ctor)) 31 \<and>
   fst (addCodeCB PREINST (Some (UserInstCallback 0)) (UserPtr 0) VM_ctor) \<noteq> INVALID_EVENTID \<and>
   \<not> bit (fst (addCodeCB PREINST (Some (UserInstCallback 0)) (UserPtr 0) VM_ctor)) 31 \<and>
   bit (0x80000000 :: u32) 31 \<and>
   fst (deleteInstrumentation 0x80000000
     (snd (addMemRangeCB 0 64 MEMORY_READ (Some (UserInstCallback 2)) (UserPtr 0) VM_ctor))) \<and>
   \<not> bit (0 :: u32) 31 \<and>
   fst (deleteInstrumentation 0
     (snd (addCodeCB PREINST (Some (UserInstCallback 0)) (UserPtr 0) VM_ctor)))"
proof -
  have a: "fst (addMemRangeCB 0 64 MEMORY_READ (Some (UserInstCallback 2)) (UserPtr 0) VM_ctor) \<noteq>
     INVALID_EVENTID"
    unfolding ex_virtual_id by (simp add: INVALID_EVENTID_def)
  have b: "fst (addCodeCB PREINST (Some (UserInstCallback 0)) (UserPtr 0) VM_ctor) \<noteq> INVALID_EVENTID"
    unfolding ex_engine_id by (simp add: INVALID_EVENTID_def)
  have c: "bit (0x80000000 :: u32) 31" by simp
  have d: "\<not> bit (0 :: u32) 31" by simp
  have e: "(0x80000000 :: u32) AND NOT EVENTID_VIRTCB_MASK \<in> fst ` set (memCBInfos
     (snd (addMemRangeCB 0 64 MEMORY_READ (Some (UserInstCallback 2)) (UserPtr 0) VM_ctor)))"
    unfolding ex_virtual_id by (simp add: EVENTID_VIRTCB_MASK_def)
  have f: "(0 :: u32) \<in> fst ` set (instrRules (engine
     (snd (addCodeCB PREINST (Some (UserInstCallback 0)) (UserPtr 0) VM_ctor))))"
    unfolding ex_engine_id by simp
  have c2: "P2 \<and> Q \<Longrightarrow> Q" for P2 Q by simp
  note T = event_id_top_bit [of 0 64 MEMORY_READ "Some (UserInstCallback 2)" "UserPtr 0" VM_ctor]
  have g1: "bit (fst (addMemRangeCB 0 64 MEMORY_READ (Some (UserInstCallback 2)) (UserPtr 0)
     VM_ctor)) 31"
    using T [THEN conjunct1] a by (rule mp)
  note U = event_id_top_bit [of _ _ _ "Some (UserInstCallback 0)" "UserPtr 0" VM_ctor _ PREINST]
  have g2: "\<not> bit (fst (addCodeCB PREINST (Some (UserInstCallback 0)) (UserPtr 0) VM_ctor)) 31"
    using U [THEN conjunct2, THEN conjunct2, THEN conjunct1] b by (rule mp)
  note V = event_id_top_bit [of _ _ _ _ _
        "snd (addMemRangeCB 0 64 MEMORY_READ (Some (UserInstCallback 2)) (UserPtr 0) VM_ctor)"
        _ _ _ _ _ _ _ _ "0x80000000"]
  have g3: "fst (deleteInstrumentation 0x80000000
     (snd (addMemRangeCB 0 64 MEMORY_READ (Some (UserInstCallback 2)) (UserPtr 0) VM_ctor)))"
    using V [THEN c2, THEN c2, THEN c2, THEN c2, THEN c2, THEN c2, THEN c2, THEN c2, THEN c2,
        THEN c2, THEN c2, THEN conjunct1, THEN mp, OF c] e
    by simp
  note W = event_id_top_bit [of _ _ _ _ _
        "snd (addCodeCB PREINST (Some (UserInstCallback 0)) (UserPtr 0) VM_ctor)"
        _ _ _ _ _ _ _ _ 0]
  have g4: "fst (deleteInstrumentation 0
     (snd (addCodeCB PREINST (Some (UserInstCallback 0)) (UserPtr 0) VM_ctor)))"
    using W [THEN c2, THEN c2, THEN c2, THEN c2, THEN c2, THEN c2, THEN c2, THEN c2, THEN c2,
        THEN c2, THEN c2, THEN c2, THEN mp, OF d] f
    by simp
  show ?thesis
    using a b c d g1 g2 g3 g4 by (intro conjI)
qed

section \<open>The gates of the memory callback registry\<close>

lemma counter_step: "(c::u32) < EVENTID_VIRTCB_MASK \<Longrightarrow> c \<le> c + 1"
proof -
  assume "c < EVENTID_VIRTCB_MASK"
  then have "unat c < 2 ^ 31" by (simp add: EVENTID_VIRTCB_MASK_def word_less_nat_alt)
  then have "unat c + unat (1::u32) < 2 ^ size c" by (simp add: word_size)
  then show ?thesis by (simp only: no_plus_overflow_unat_size)
qed

lemma invalid_not_less: "\<not> INVALID_EVENTID < EVENTID_VIRTCB_MASK"
  by (simp add: INVALID_EVENTID_def EVENTID_VIRTCB_MASK_def)

lemma addMemAccessCB_cases:
  "addMemAccessCB t (Some f) d s = (INVALID_EVENTID, snd (recordMemoryAccess t s)) \<and>
     t \<noteq> MEMORY_READ \<and> t \<noteq> MEMORY_WRITE \<and> t \<noteq> MEMORY_READ_WRITE \<or>
   (\<exists>x. addMemAccessCB t (Some f) d s = engine_addInstrRule x (snd (recordMemoryAccess t s)))"
  by (auto simp: addMemAccessCB_def Let_def)

lemma Engine_register_mono:
  "instrRulesCounter e \<le> instrRulesCounter (snd (Engine_register x e))"
  by (simp add: Engine_register_def counter_step)

lemma Engine_register_ok:
  "instrRulesCounter (snd (Engine_register x e)) < EVENTID_VIRTCB_MASK \<Longrightarrow>
     fst (Engine_register x e) \<noteq> INVALID_EVENTID"
  using invalid_not_less by (auto simp: Engine_register_def split: if_splits)

lemma engine_addInstrRule_mono:
  "instrRulesCounter (engine s) \<le> instrRulesCounter (engine (snd (engine_addInstrRule r s)))"
  using Engine_register_mono [of "engine s" "RuleEntry r"]
  by (simp add: engine_addInstrRule_def Engine_addInstrRule_def case_prod_beta)

lemma engine_addInstrRule_ok:
  "instrRulesCounter (engine (snd (engine_addInstrRule r s))) < EVENTID_VIRTCB_MASK \<Longrightarrow>
     fst (engine_addInstrRule r s) \<noteq> INVALID_EVENTID"
  using Engine_register_ok [of "RuleEntry r" "engine s"]
  by (simp add: engine_addInstrRule_def Engine_addInstrRule_def case_prod_beta)

lemma engine_addInstrRules_mono:
  "instrRulesCounter (engine s) \<le> instrRulesCounter (engine (engine_addInstrRules rs s))"
proof (induction rs arbitrary: s)
  case Nil
  show ?case by simp
next
  case (Cons r rs)
  show ?case
    using engine_addInstrRule_mono [of s r] Cons.IH [of "snd (engine_addInstrRule r s)"]
    by simp
qed

lemma recordMemoryAccess_mono:
  "instrRulesCounter (engine s) \<le> instrRulesCounter (engine (snd (recordMemoryAccess t s)))"
proof -
  define s1 where "s1 =
     (if t AND MEMORY_READ \<noteq> 0 \<and> memoryLoggingLevel s AND ucast MEMORY_READ = 0
      then engine_addInstrRules getInstrRuleMemAccessRead
             (s\<lparr>memoryLoggingLevel := memoryLoggingLevel s OR ucast MEMORY_READ\<rparr>)
      else s)"
  define s2 where "s2 =
     (if t AND MEMORY_WRITE \<noteq> 0 \<and> memoryLoggingLevel s1 AND ucast MEMORY_WRITE = 0
      then engine_addInstrRules getInstrRuleMemAccessWrite
             (s1\<lparr>memoryLoggingLevel := memoryLoggingLevel s1 OR ucast MEMORY_WRITE\<rparr>)
      else s1)"
  have a: "instrRulesCounter (engine s) \<le> instrRulesCounter (engine s1)"
    using engine_addInstrRules_mono
      [of "s\<lparr>memoryLoggingLevel := memoryLoggingLevel s OR ucast MEMORY_READ\<rparr>"
          getInstrRuleMemAccessRead]
    by (simp add: s1_def)
  have b: "instrRulesCounter (engine s1) \<le> instrRulesCounter (engine s2)"
    using engine_addInstrRules_mono
      [of "s1\<lparr>memoryLoggingLevel := memoryLoggingLevel s1 OR ucast MEMORY_WRITE\<rparr>"
          getInstrRuleMemAccessWrite]
    by (simp add: s2_def)
  have "snd (recordMemoryAccess t s) = s2"
    by (simp add: recordMemoryAccess_def Let_def s1_def [symmetric] s2_def [symmetric])
  then show ?thesis using a b by simp
qed

lemma addMemAccessCB_mono:
  "instrRulesCounter (engine s) \<le> instrRulesCounter (engine (snd (addMemAccessCB t cb d s)))"
proof (cases cb)
  case None
  then show ?thesis by (simp add: addMemAccessCB_def)
next
  case (Some f)
  have r: "instrRulesCounter (engine s) \<le>
           instrRulesCounter (engine (snd (recordMemoryAccess t s)))"
    by (rule recordMemoryAccess_mono)
  have e: "instrRulesCounter (engine (snd (recordMemoryAccess t s))) \<le>
           instrRulesCounter (engine (snd (engine_addInstrRule x (snd (recordMemoryAccess t s)))))"
    for x by (rule engine_addInstrRule_mono)
  show ?thesis
    using addMemAccessCB_cases [of t f d s] r order_trans [OF r e]
    unfolding Some by auto
qed

lemma addMemAccessCB_ok:
  assumes "t = MEMORY_READ \<or> t = MEMORY_WRITE \<or> t = MEMORY_READ_WRITE"
    and "instrRulesCounter (engine (snd (addMemAccessCB t (Some f) d s))) < EVENTID_VIRTCB_MASK"
  shows "fst (addMemAccessCB t (Some f) d s) \<noteq> INVALID_EVENTID"
  using assms addMemAccessCB_cases [of t f d s]
    engine_addInstrRule_ok [of _ "snd (recordMemoryAccess t s)"]
  by auto

lemma addMemRangeCB_gates:
  assumes J: "instrRulesCounter (engine s) < EVENTID_VIRTCB_MASK \<longrightarrow> gate_if_needed s"
  shows "instrRulesCounter (engine (snd (addMemRangeCB lo hi t cb d s))) < EVENTID_VIRTCB_MASK \<longrightarrow>
         gate_if_needed (snd (addMemRangeCB lo hi t cb d s))"
proof (cases "lo < hi \<and> t AND MEMORY_READ_WRITE \<noteq> 0 \<and> cb \<noteq> None")
  case False
  then have "snd (addMemRangeCB lo hi t cb d s) = s"
    by (auto simp: addMemRangeCB_def)
  then show ?thesis using J by simp
next
  case True
  then obtain f where f: "cb = Some f" and lt: "lo < hi" and ty: "t AND MEMORY_READ_WRITE \<noteq> 0"
    by auto
  define s1 where "s1 =
    (if t = MEMORY_READ \<and> memReadGateCBID s = INVALID_EVENTID then
       (case addMemAccessCB MEMORY_READ (Some memReadGate_ptr) MemCBInfosPtr s of
          (g, u) \<Rightarrow> u\<lparr>memReadGateCBID := g\<rparr>)
     else s)"
  define s2 where "s2 =
    (if t AND MEMORY_WRITE \<noteq> 0 \<and> memWriteGateCBID s1 = INVALID_EVENTID then
       (case addMemAccessCB MEMORY_READ_WRITE (Some memWriteGate_ptr) MemCBInfosPtr s1 of
          (g, u) \<Rightarrow> u\<lparr>memWriteGateCBID := g\<rparr>)
     else s1)"
  let ?new = "(memCBID s2,
      \<lparr>cb_type = t, cb_range = Range_ctor lo hi, cbk = f, cb_data = d\<rparr>)"
  let ?s' = "snd (addMemRangeCB lo hi t cb d s)"
  have unf: "?s' =
    (if \<not> memCBID s2 < EVENTID_VIRTCB_MASK then s2\<lparr>memCBID := memCBID s2 + 1\<rparr>
     else s2\<lparr>memCBID := memCBID s2 + 1, memCBInfos := memCBInfos s2 @ [?new]\<rparr>)"
    using lt ty f by (simp add: addMemRangeCB_def Let_def s1_def [symmetric] s2_def [symmetric])
  note fa = addMemAccessCB_frame [of MEMORY_READ "Some memReadGate_ptr" MemCBInfosPtr s]
  note fb = addMemAccessCB_frame [of MEMORY_READ_WRITE "Some memWriteGate_ptr" MemCBInfosPtr s1]
  have r1: "memCBInfos s1 = memCBInfos s" and w1: "memWriteGateCBID s1 = memWriteGateCBID s"
    using fa by (simp_all add: s1_def case_prod_beta)
  have c1: "instrRulesCounter (engine s) \<le> instrRulesCounter (engine s1)"
    using addMemAccessCB_mono [of s MEMORY_READ "Some memReadGate_ptr" MemCBInfosPtr]
    by (simp add: s1_def case_prod_beta)
  have g1: "memReadGateCBID s1 \<noteq> INVALID_EVENTID"
    if "instrRulesCounter (engine s1) < EVENTID_VIRTCB_MASK"
      and "t = MEMORY_READ \<or> memReadGateCBID s \<noteq> INVALID_EVENTID"
  proof (cases "t = MEMORY_READ \<and> memReadGateCBID s = INVALID_EVENTID")
    case True
    then have e: "s1 = (snd (addMemAccessCB MEMORY_READ (Some memReadGate_ptr) MemCBInfosPtr s))
        \<lparr>memReadGateCBID := fst (addMemAccessCB MEMORY_READ (Some memReadGate_ptr) MemCBInfosPtr s)\<rparr>"
      by (simp add: s1_def case_prod_beta)
    have "instrRulesCounter (engine (snd (addMemAccessCB MEMORY_READ (Some memReadGate_ptr)
        MemCBInfosPtr s))) < EVENTID_VIRTCB_MASK"
      using that(1) by (subst (asm) e) simp
    then have "fst (addMemAccessCB MEMORY_READ (Some memReadGate_ptr) MemCBInfosPtr s) \<noteq>
        INVALID_EVENTID"
      by (intro addMemAccessCB_ok) simp_all
    then show ?thesis by (subst e) simp
  next
    case False
    then show ?thesis using that(2) by (auto simp: s1_def)
  qed
  have r2: "memCBInfos s2 = memCBInfos s1" and rg2: "memReadGateCBID s2 = memReadGateCBID s1"
    using fb by (simp_all add: s2_def case_prod_beta)
  have c2: "instrRulesCounter (engine s1) \<le> instrRulesCounter (engine s2)"
    using addMemAccessCB_mono [of s1 MEMORY_READ_WRITE "Some memWriteGate_ptr" MemCBInfosPtr]
    by (simp add: s2_def case_prod_beta)
  have g2: "memWriteGateCBID s2 \<noteq> INVALID_EVENTID"
    if "instrRulesCounter (engine s2) < EVENTID_VIRTCB_MASK"
      and "t AND MEMORY_WRITE \<noteq> 0 \<or> memWriteGateCBID s1 \<noteq> INVALID_EVENTID"
  proof (cases "t AND MEMORY_WRITE \<noteq> 0 \<and> memWriteGateCBID s1 = INVALID_EVENTID")
    case True
    then have e: "s2 =
        (snd (addMemAccessCB MEMORY_READ_WRITE (Some memWriteGate_ptr) MemCBInfosPtr s1))
        \<lparr>memWriteGateCBID :=
           fst (addMemAccessCB MEMORY_READ_WRITE (Some memWriteGate_ptr) MemCBInfosPtr s1)\<rparr>"
      by (simp add: s2_def case_prod_beta)
    have "instrRulesCounter (engine (snd (addMemAccessCB MEMORY_READ_WRITE (Some memWriteGate_ptr)
        MemCBInfosPtr s1))) < EVENTID_VIRTCB_MASK"
      using that(1) by (subst (asm) e) simp
    then have "fst (addMemAccessCB MEMORY_READ_WRITE (Some memWriteGate_ptr) MemCBInfosPtr s1) \<noteq>
        INVALID_EVENTID"
      by (intro addMemAccessCB_ok) simp_all
    then show ?thesis by (subst e) simp
  next
    case False
    then show ?thesis using that(2) by (auto simp: s2_def)
  qed
  show ?thesis
  proof
    assume room: "instrRulesCounter (engine ?s') < EVENTID_VIRTCB_MASK"
    have e': "engine ?s' = engine s2" by (simp add: unf)
    have room2: "instrRulesCounter (engine s2) < EVENTID_VIRTCB_MASK" using room e' by simp
    have room1: "instrRulesCounter (engine s1) < EVENTID_VIRTCB_MASK"
      using room2 c2 by (rule order_le_less_trans [rotated])
    have room0: "instrRulesCounter (engine s) < EVENTID_VIRTCB_MASK"
      using room1 c1 by (rule order_le_less_trans [rotated])
    have old: "gate_if_needed s" using J room0 by simp
    have gates: "memReadGateCBID ?s' = memReadGateCBID s2"
      "memWriteGateCBID ?s' = memWriteGateCBID s2"
      by (simp_all add: unf)
    have reg: "set (memCBInfos ?s') \<subseteq> insert ?new (set (memCBInfos s))"
      using r1 r2 by (auto simp: unf)
    have rd: "memReadGateCBID ?s' \<noteq> INVALID_EVENTID" if "list_ex needs_read_gate (memCBInfos ?s')"
    proof -
      from that reg have "needs_read_gate ?new \<or> list_ex needs_read_gate (memCBInfos s)"
        by (auto simp: list_ex_iff)
      then have "t = MEMORY_READ \<or> memReadGateCBID s \<noteq> INVALID_EVENTID"
        using old by (auto simp: needs_read_gate_def gate_if_needed_def)
      then show ?thesis using g1 [OF room1] gates rg2 by simp
    qed
    have wr: "memWriteGateCBID ?s' \<noteq> INVALID_EVENTID"
      if "list_ex needs_write_gate (memCBInfos ?s')"
    proof -
      from that reg have "needs_write_gate ?new \<or> list_ex needs_write_gate (memCBInfos s)"
        by (auto simp: list_ex_iff)
      then have "t AND MEMORY_WRITE \<noteq> 0 \<or> memWriteGateCBID s1 \<noteq> INVALID_EVENTID"
        using old w1 by (auto simp: needs_write_gate_def gate_if_needed_def)
      then show ?thesis using g2 [OF room2] gates by simp
    qed
    show "gate_if_needed ?s'"
      using rd wr by (simp add: gate_if_needed_def)
  qed
qed

lemma addMemRangeCB_gate_kept:
  "(memReadGateCBID s \<noteq> INVALID_EVENTID \<or> t \<noteq> MEMORY_READ \<longrightarrow>
      memReadGateCBID (snd (addMemRangeCB lo hi t cb d s)) = memReadGateCBID s) \<and>
   (memWriteGateCBID s \<noteq> INVALID_EVENTID \<or> t AND MEMORY_WRITE = 0 \<longrightarrow>
      memWriteGateCBID (snd (addMemRangeCB lo hi t cb d s)) = memWriteGateCBID s)"
proof (cases "lo < hi \<and> t AND MEMORY_READ_WRITE \<noteq> 0 \<and> cb \<noteq> None")
  case False
  then have "snd (addMemRangeCB lo hi t cb d s) = s"
    by (auto simp: addMemRangeCB_def)
  then show ?thesis by simp
next
  case True
  then obtain f where f: "cb = Some f" and lt: "lo < hi" and ty: "t AND MEMORY_READ_WRITE \<noteq> 0"
    by auto
  define s1 where "s1 =
    (if t = MEMORY_READ \<and> memReadGateCBID s = INVALID_EVENTID then
       (case addMemAccessCB MEMORY_READ (Some memReadGate_ptr) MemCBInfosPtr s of
          (g, u) \<Rightarrow> u\<lparr>memReadGateCBID := g\<rparr>)
     else s)"
  define s2 where "s2 =
    (if t AND MEMORY_WRITE \<noteq> 0 \<and> memWriteGateCBID s1 = INVALID_EVENTID then
       (case addMemAccessCB MEMORY_READ_WRITE (Some memWriteGate_ptr) MemCBInfosPtr s1 of
          (g, u) \<Rightarrow> u\<lparr>memWriteGateCBID := g\<rparr>)
     else s1)"
  let ?s' = "snd (addMemRangeCB lo hi t cb d s)"
  have unf: "memReadGateCBID ?s' = memReadGateCBID s2 \<and> memWriteGateCBID ?s' = memWriteGateCBID s2"
    using lt ty f by (simp add: addMemRangeCB_def Let_def s1_def [symmetric] s2_def [symmetric])
  note fa = addMemAccessCB_frame [of MEMORY_READ "Some memReadGate_ptr" MemCBInfosPtr s]
  note fb = addMemAccessCB_frame [of MEMORY_READ_WRITE "Some memWriteGate_ptr" MemCBInfosPtr s1]
  have w1: "memWriteGateCBID s1 = memWriteGateCBID s"
    using fa by (simp add: s1_def case_prod_beta)
  have rg2: "memReadGateCBID s2 = memReadGateCBID s1"
    using fb by (simp add: s2_def case_prod_beta)
  have a: "memReadGateCBID s1 = memReadGateCBID s"
    if "memReadGateCBID s \<noteq> INVALID_EVENTID \<or> t \<noteq> MEMORY_READ"
    using that by (auto simp: s1_def)
  have b: "memWriteGateCBID s2 = memWriteGateCBID s1"
    if "memWriteGateCBID s \<noteq> INVALID_EVENTID \<or> t AND MEMORY_WRITE = 0"
    using that w1 by (auto simp: s2_def)
  show ?thesis using unf a b w1 rg2 by simp
qed

lemma addMemAddrCB_gates:
  assumes "instrRulesCounter (engine s) < EVENTID_VIRTCB_MASK \<longrightarrow> gate_if_needed s"
  shows "instrRulesCounter (engine (snd (addMemAddrCB a t cb d s))) < EVENTID_VIRTCB_MASK \<longrightarrow>
         gate_if_needed (snd (addMemAddrCB a t cb d s))"
  using assms addMemRangeCB_gates [OF assms, of a "a + 1" t cb d]
  by (cases cb) (simp_all add: addMemAddrCB_def)

lemma memCBInfos_erase_subset: "memCBInfos_erase k l = Some l' \<Longrightarrow> set l' \<subseteq> set l"
  using memCBInfos_erase_Some [of k l l'] by auto

lemma deleteInstrumentation_gate_ids:
  "memReadGateCBID (snd (deleteInstrumentation k s)) = memReadGateCBID s \<and>
   memWriteGateCBID (snd (deleteInstrumentation k s)) = memWriteGateCBID s \<and>
   instrRulesCounter (engine (snd (deleteInstrumentation k s))) = instrRulesCounter (engine s) \<and>
   set (memCBInfos (snd (deleteInstrumentation k s))) \<subseteq> set (memCBInfos s)"
proof (cases "k AND EVENTID_VIRTCB_MASK \<noteq> 0")
  case True
  then show ?thesis
    using memCBInfos_erase_subset [of "k AND NOT EVENTID_VIRTCB_MASK" "memCBInfos s"]
    by (auto simp: deleteInstrumentation_def split: option.splits)
next
  case False
  then show ?thesis
    by (simp add: deleteInstrumentation_def Let_def Engine_deleteInstrumentation_def)
qed

lemma deleteInstrumentation_gates:
  assumes "instrRulesCounter (engine s) < EVENTID_VIRTCB_MASK \<longrightarrow> gate_if_needed s"
  shows "instrRulesCounter (engine (snd (deleteInstrumentation k s))) < EVENTID_VIRTCB_MASK \<longrightarrow>
         gate_if_needed (snd (deleteInstrumentation k s))"
  using assms deleteInstrumentation_gate_ids [of k s]
  by (auto simp: gate_if_needed_def list_ex_iff)

lemma deleteAllInstrumentations_gates:
  "memReadGateCBID (deleteAllInstrumentations s) = INVALID_EVENTID \<and>
   memWriteGateCBID (deleteAllInstrumentations s) = INVALID_EVENTID \<and>
   memCBInfos (deleteAllInstrumentations s) = []"
  by (simp add: deleteAllInstrumentations_def)

lemma apply_op_gates:
  assumes "instrRulesCounter (engine s) < EVENTID_VIRTCB_MASK \<longrightarrow> gate_if_needed s"
  shows "instrRulesCounter (engine (apply_op x s)) < EVENTID_VIRTCB_MASK \<longrightarrow>
         gate_if_needed (apply_op x s)"
proof (cases x)
  case (AddMemRangeCB lo hi t cb d)
  then show ?thesis using addMemRangeCB_gates [OF assms] by simp
next
  case (AddMemAddrCB a t cb d)
  then show ?thesis using addMemAddrCB_gates [OF assms] by simp
next
  case (DeleteInstrumentation k)
  then show ?thesis using deleteInstrumentation_gates [OF assms] by simp
next
  case DeleteAllInstrumentations
  then show ?thesis
    using deleteAllInstrumentations_gates [of s] by (simp add: gate_if_needed_def)
qed

lemma apply_ops_gates:
  "instrRulesCounter (engine s) < EVENTID_VIRTCB_MASK \<longrightarrow> gate_if_needed s \<Longrightarrow>
   instrRulesCounter (engine (apply_ops ops s)) < EVENTID_VIRTCB_MASK \<longrightarrow>
     gate_if_needed (apply_ops ops s)"
proof (induction ops arbitrary: s)
  case Nil
  then show ?case by simp
next
  case (Cons x xs)
  show ?case using Cons.IH [OF apply_op_gates [OF Cons.prems]] by simp
qed

lemma VM_ctor_gates:
  "memReadGateCBID VM_ctor = INVALID_EVENTID \<and> memWriteGateCBID VM_ctor = INVALID_EVENTID \<and>
   memCBInfos VM_ctor = []"
  by (simp add: VM_ctor_def)

text \<open>
  C5 (as amended): after any sequence of \<^verbatim>\<open>addMemRangeCB\<close>, \<^verbatim>\<open>addMemAddrCB\<close>,
  \<^verbatim>\<open>deleteInstrumentation\<close> and \<^verbatim>\<open>deleteAllInstrumentations\<close> on a new VM, and as long as
  the engine has not run out of rule ids, the read gate exists
  (\<^verbatim>\<open>memReadGateCBID != INVALID_EVENTID\<close>) if some registered entry needs it (its type is
  \<^verbatim>\<open>MEMORY_READ\<close>), and the write gate exists if some registered entry needs it (its
  type has the bit \<^verbatim>\<open>MEMORY_WRITE\<close>). Gates are created lazily: a new VM has none,
  \<^verbatim>\<open>addMemRangeCB\<close> leaves a gate id alone when the gate exists or the type does not need
  it. \<^verbatim>\<open>deleteInstrumentation\<close> never changes a gate id, so a gate outlives its last
  entry; only \<^verbatim>\<open>deleteAllInstrumentations\<close> resets both gate ids and empties the registry.
\<close>

theorem gate_exists_if_needed:
  "(instrRulesCounter (engine (apply_ops ops VM_ctor)) < EVENTID_VIRTCB_MASK \<longrightarrow>
      gate_if_needed (apply_ops ops VM_ctor)) \<and>
   (memReadGateCBID VM_ctor = INVALID_EVENTID \<and> memWriteGateCBID VM_ctor = INVALID_EVENTID) \<and>
   ((memReadGateCBID s \<noteq> INVALID_EVENTID \<or> t \<noteq> MEMORY_READ \<longrightarrow>
       memReadGateCBID (snd (addMemRangeCB lo hi t cb d s)) = memReadGateCBID s) \<and>
    (memWriteGateCBID s \<noteq> INVALID_EVENTID \<or> t AND MEMORY_WRITE = 0 \<longrightarrow>
       memWriteGateCBID (snd (addMemRangeCB lo hi t cb d s)) = memWriteGateCBID s)) \<and>
   (memReadGateCBID (snd (deleteInstrumentation k s)) = memReadGateCBID s \<and>
    memWriteGateCBID (snd (deleteInstrumentation k s)) = memWriteGateCBID s) \<and>
   (memReadGateCBID (deleteAllInstrumentations s) = INVALID_EVENTID \<and>
    memWriteGateCBID (deleteAllInstrumentations s) = INVALID_EVENTID \<and>
    memCBInfos (deleteAllInstrumentations s) = [])"
proof -
  have init: "instrRulesCounter (engine VM_ctor) < EVENTID_VIRTCB_MASK \<longrightarrow> gate_if_needed VM_ctor"
    by (simp add: gate_if_needed_def VM_ctor_def)
  have 1: "instrRulesCounter (engine (apply_ops ops VM_ctor)) < EVENTID_VIRTCB_MASK \<longrightarrow>
      gate_if_needed (apply_ops ops VM_ctor)"
    by (rule apply_ops_gates [OF init])
  have 2: "memReadGateCBID VM_ctor = INVALID_EVENTID \<and> memWriteGateCBID VM_ctor = INVALID_EVENTID"
    using VM_ctor_gates by simp
  have 4: "memReadGateCBID (snd (deleteInstrumentation k s)) = memReadGateCBID s \<and>
    memWriteGateCBID (snd (deleteInstrumentation k s)) = memWriteGateCBID s"
    using deleteInstrumentation_gate_ids [of k s] by simp
  show ?thesis
    by (intro conjI 1 2 [THEN conjunct1] 2 [THEN conjunct2]
        addMemRangeCB_gate_kept [THEN conjunct1] addMemRangeCB_gate_kept [THEN conjunct2]
        4 [THEN conjunct1] 4 [THEN conjunct2]
        deleteAllInstrumentations_gates [THEN conjunct1]
        deleteAllInstrumentations_gates [THEN conjunct2, THEN conjunct1]
        deleteAllInstrumentations_gates [THEN conjunct2, THEN conjunct2])
qed

text \<open>
  C5, as the spec states it ("a gate exists iff at least one entry requires it"), fails: after
  one read callback is registered and deleted again the read gate is still installed
  and the registry is empty.
\<close>

theorem gate_outlives_last_entry:
  "\<not> gate_iff_needed
       (apply_ops [AddMemRangeCB 0 1 MEMORY_READ (Some (UserInstCallback 0)) (UserPtr 0),
                   DeleteInstrumentation 0x80000000] VM_ctor)"
  by (simp add: vm_eval_defs gate_iff_needed_def needs_read_gate_def needs_write_gate_def)

lemma ex_ops_state:
  "apply_ops [AddMemRangeCB 0 1 MEMORY_READ (Some (UserInstCallback 0)) (UserPtr 0),
              AddMemAddrCB 8 MEMORY_WRITE (Some (UserInstCallback 1)) (UserPtr 0),
              DeleteInstrumentation 0x80000000] VM_ctor =
   \<lparr>engine = \<lparr>instrRules =
       [(0, RuleEntry (InstrRuleBasic DoesReadAccess ShadowGenerator PREINST False)),
        (1, RuleEntry (InstrRuleBasic DoesReadAccess
              (CallbackGenerator memReadGate_ptr MemCBInfosPtr) PREINST True)),
        (2, RuleEntry (InstrRuleBasic DoesWriteAccess ShadowGenerator POSTINST False)),
        (3, RuleEntry (InstrRuleBasic (Or_cond [DoesReadAccess, DoesWriteAccess])
              (CallbackGenerator memWriteGate_ptr MemCBInfosPtr) POSTINST True))],
       instrRulesCounter = 4, curExecBlock = None, isPreInst = False\<rparr>,
    memoryLoggingLevel = 3,
    memCBInfos = [(1, ex_entry MEMORY_WRITE 8 9 1)],
    memCBID = 2, memReadGateCBID = 1, memWriteGateCBID = 3, instrCBInfos = []\<rparr>"
  by (simp add: vm_eval_defs ex_entry_def)

theorem gate_exists_if_needed_witness:
  "instrRulesCounter (engine (apply_ops
     [AddMemRangeCB 0 1 MEMORY_READ (Some (UserInstCallback 0)) (UserPtr 0),
      AddMemAddrCB 8 MEMORY_WRITE (Some (UserInstCallback 1)) (UserPtr 0),
      DeleteInstrumentation 0x80000000] VM_ctor)) < EVENTID_VIRTCB_MASK \<and>
   gate_if_needed (apply_ops
     [AddMemRangeCB 0 1 MEMORY_READ (Some (UserInstCallback 0)) (UserPtr 0),
      AddMemAddrCB 8 MEMORY_WRITE (Some (UserInstCallback 1)) (UserPtr 0),
      DeleteInstrumentation 0x80000000] VM_ctor) \<and>
   list_ex needs_write_gate (memCBInfos (apply_ops
     [AddMemRangeCB 0 1 MEMORY_READ (Some (UserInstCallback 0)) (UserPtr 0),
      AddMemAddrCB 8 MEMORY_WRITE (Some (UserInstCallback 1)) (UserPtr 0),
      DeleteInstrumentation 0x80000000] VM_ctor))"
proof -
  let ?s = "apply_ops
     [AddMemRangeCB 0 1 MEMORY_READ (Some (UserInstCallback 0)) (UserPtr 0),
      AddMemAddrCB 8 MEMORY_WRITE (Some (UserInstCallback 1)) (UserPtr 0),
      DeleteInstrumentation 0x80000000] VM_ctor"
  have a: "instrRulesCounter (engine ?s) < EVENTID_VIRTCB_MASK"
    unfolding ex_ops_state by (simp add: EVENTID_VIRTCB_MASK_def)
  have b: "list_ex needs_write_gate (memCBInfos ?s)"
    unfolding ex_ops_state by (simp add: needs_write_gate_def ex_entry_def MEMORY_WRITE_def)
  have c: "gate_if_needed ?s"
    using gate_exists_if_needed [THEN conjunct1, THEN mp, OF a] .
  show ?thesis using a b c by (intro conjI)
qed

section \<open>The ranges of the registry\<close>

text \<open>
  No operation of the VM puts an empty range into the registry: every registry a VM
  builds has non-empty ranges.
\<close>

lemma addMemRangeCB_ranges:
  assumes "ranges_nonempty (memCBInfos s)"
  shows "ranges_nonempty (memCBInfos (snd (addMemRangeCB lo hi t cb d s)))"
proof (cases "lo < hi \<and> t AND MEMORY_READ_WRITE \<noteq> 0 \<and> cb \<noteq> None")
  case False
  then have "addMemRangeCB lo hi t cb d s = (INVALID_EVENTID, s)"
    by (auto simp: addMemRangeCB_def)
  then show ?thesis using assms by simp
next
  case True
  then obtain f where lt: "lo < hi" and ty: "t AND MEMORY_READ_WRITE \<noteq> 0" and f: "cb = Some f"
    by auto
  define s1 where "s1 =
    (if t = MEMORY_READ \<and> memReadGateCBID s = INVALID_EVENTID then
       (case addMemAccessCB MEMORY_READ (Some memReadGate_ptr) MemCBInfosPtr s of
          (g, u) \<Rightarrow> u\<lparr>memReadGateCBID := g\<rparr>)
     else s)"
  define s2 where "s2 =
    (if t AND MEMORY_WRITE \<noteq> 0 \<and> memWriteGateCBID s1 = INVALID_EVENTID then
       (case addMemAccessCB MEMORY_READ_WRITE (Some memWriteGate_ptr) MemCBInfosPtr s1 of
          (g, u) \<Rightarrow> u\<lparr>memWriteGateCBID := g\<rparr>)
     else s1)"
  have fr1: "memCBInfos s1 = memCBInfos s"
    using addMemAccessCB_frame [of MEMORY_READ "Some memReadGate_ptr" MemCBInfosPtr s]
    by (simp add: s1_def case_prod_beta)
  have fr2: "memCBInfos s2 = memCBInfos s1"
    using addMemAccessCB_frame [of MEMORY_READ_WRITE "Some memWriteGate_ptr" MemCBInfosPtr s1]
    by (simp add: s2_def case_prod_beta)
  have unf: "addMemRangeCB lo hi t cb d s =
    (if \<not> memCBID s2 < EVENTID_VIRTCB_MASK then (INVALID_EVENTID, s2\<lparr>memCBID := memCBID s2 + 1\<rparr>)
     else (memCBID s2 OR EVENTID_VIRTCB_MASK,
           s2\<lparr>memCBID := memCBID s2 + 1,
              memCBInfos := memCBInfos s2 @
                [(memCBID s2, \<lparr>cb_type = t, cb_range = Range_ctor lo hi, cbk = f, cb_data = d\<rparr>)]\<rparr>))"
    using lt ty f by (simp add: addMemRangeCB_def Let_def s1_def [symmetric] s2_def [symmetric])
  show ?thesis
    unfolding unf using assms fr1 fr2 lt by (simp add: ranges_nonempty_def Range_ctor_def)
qed

lemma apply_op_ranges:
  assumes "ranges_nonempty (memCBInfos s)"
  shows "ranges_nonempty (memCBInfos (apply_op x s))"
proof (cases x)
  case (AddMemRangeCB lo hi t cb d)
  then show ?thesis using addMemRangeCB_ranges [OF assms] by simp
next
  case (AddMemAddrCB a t cb d)
  then show ?thesis
    using addMemRangeCB_ranges [OF assms] assms by (simp add: addMemAddrCB_def split: option.split)
next
  case (DeleteInstrumentation k)
  have "ranges_nonempty l" if "memCBInfos_erase j (memCBInfos s) = Some l" for j l
    using memCBInfos_erase_subset [OF that] assms
    by (auto simp: ranges_nonempty_def list_all_iff)
  then show ?thesis
    using DeleteInstrumentation assms
    by (simp add: deleteInstrumentation_def Let_def case_prod_beta split: option.split)
next
  case DeleteAllInstrumentations
  then show ?thesis by (simp add: deleteAllInstrumentations_def ranges_nonempty_def)
qed

lemma apply_ops_ranges:
  "ranges_nonempty (memCBInfos s) \<Longrightarrow> ranges_nonempty (memCBInfos (apply_ops ops s))"
  by (induction ops arbitrary: s) (simp_all add: apply_op_ranges)

lemma registry_ranges_nonempty: "ranges_nonempty (memCBInfos (apply_ops ops VM_ctor))"
  by (rule apply_ops_ranges) (simp add: VM_ctor_def ranges_nonempty_def)

section \<open>Registering and deleting a memory callback\<close>

lemma invalid_and_mask: "INVALID_EVENTID AND EVENTID_VIRTCB_MASK \<noteq> 0"
  by (simp add: INVALID_EVENTID_def EVENTID_VIRTCB_MASK_def)

lemma invalid_and_not_mask: "INVALID_EVENTID AND NOT EVENTID_VIRTCB_MASK = 0x7FFFFFFF"
  by (simp add: INVALID_EVENTID_def EVENTID_VIRTCB_MASK_def)

lemma register_and_delete_step:
  assumes reg: "memCBInfos s = [(0, e0)]" and gate: "memReadGateCBID s \<noteq> INVALID_EVENTID"
    and nz: "memCBID s \<noteq> 0"
  shows "register_and_delete s = s\<lparr>memCBID := memCBID s + 1\<rparr>"
proof -
  let ?e = "\<lparr>cb_type = MEMORY_READ, cb_range = Range_ctor 0 1, cbk = UserInstCallback 0,
             cb_data = UserPtr 0\<rparr>"
  have unf: "addMemRangeCB 0 1 MEMORY_READ (Some (UserInstCallback 0)) (UserPtr 0) s =
    (if \<not> memCBID s < EVENTID_VIRTCB_MASK then (INVALID_EVENTID, s\<lparr>memCBID := memCBID s + 1\<rparr>)
     else (memCBID s OR EVENTID_VIRTCB_MASK,
           s\<lparr>memCBID := memCBID s + 1, memCBInfos := memCBInfos s @ [(memCBID s, ?e)]\<rparr>))"
    using gate
    by (simp add: addMemRangeCB_def Let_def MEMORY_READ_def MEMORY_WRITE_def MEMORY_READ_WRITE_def)
  show ?thesis
  proof (cases "memCBID s < EVENTID_VIRTCB_MASK")
    case True
    have er: "memCBInfos_erase (memCBID s) ([(0, e0)] @ [(memCBID s, ?e)]) = Some [(0, e0)]"
      using nz by auto
    have "snd (deleteInstrumentation (memCBID s OR EVENTID_VIRTCB_MASK)
            (s\<lparr>memCBID := memCBID s + 1, memCBInfos := memCBInfos s @ [(memCBID s, ?e)]\<rparr>)) =
          s\<lparr>memCBID := memCBID s + 1, memCBInfos := [(0, e0)]\<rparr>"
      using er reg mask_or_and [of "memCBID s"] mask_or_and_not [OF True]
      by (simp add: deleteInstrumentation_def)
    also have "\<dots> = s\<lparr>memCBID := memCBID s + 1\<rparr>"
      using reg by (cases s) simp
    finally show ?thesis using True by (simp add: register_and_delete_def unf)
  next
    case False
    have er: "memCBInfos_erase 0x7FFFFFFF [(0, e0)] = None" by simp
    have "snd (deleteInstrumentation INVALID_EVENTID (s\<lparr>memCBID := memCBID s + 1\<rparr>)) =
          s\<lparr>memCBID := memCBID s + 1\<rparr>"
      using er reg invalid_and_mask invalid_and_not_mask
      by (simp add: deleteInstrumentation_def)
    then show ?thesis using False by (simp add: register_and_delete_def unf)
  qed
qed

lemma unat_add_of_nat:
  assumes "unat (c::u32) + n < 2 ^ 32"
  shows "unat (c + of_nat n) = unat c + n"
proof -
  have n: "n < 2 ^ 32" using assms by simp
  have "unat (of_nat n :: u32) = n" using n by (simp add: unat_of_nat)
  then show ?thesis using assms by (simp add: unat_word_ariths)
qed

lemma register_and_delete_funpow:
  assumes reg: "memCBInfos s = [(0, e0)]" and gate: "memReadGateCBID s \<noteq> INVALID_EVENTID"
    and pos: "0 < unat (memCBID s)"
  shows "unat (memCBID s) + n \<le> 2 ^ 32 \<Longrightarrow>
         (register_and_delete ^^ n) s = s\<lparr>memCBID := memCBID s + of_nat n\<rparr>"
proof (induction n)
  case 0
  show ?case by simp
next
  case (Suc n)
  have small: "unat (memCBID s) + n < 2 ^ 32" using Suc.prems by simp
  have ih: "(register_and_delete ^^ n) s = s\<lparr>memCBID := memCBID s + of_nat n\<rparr>"
    using Suc.IH small by simp
  let ?t = "s\<lparr>memCBID := memCBID s + of_nat n\<rparr>"
  have "unat (memCBID s + of_nat n) = unat (memCBID s) + n"
    using small by (rule unat_add_of_nat)
  then have "unat (memCBID ?t) \<noteq> 0" using pos by simp
  then have nz: "memCBID ?t \<noteq> 0" by (metis unat_0)
  have "register_and_delete ?t = ?t\<lparr>memCBID := memCBID ?t + 1\<rparr>"
    by (rule register_and_delete_step [of _ e0]) (use reg gate nz in simp_all)
  then show ?case using ih by (simp add: add.assoc add.commute)
qed

lemma ex_first_registration:
  "snd (addMemRangeCB 0 1 MEMORY_READ (Some (UserInstCallback 0)) (UserPtr 0) VM_ctor) =
      \<lparr>engine = \<lparr>instrRules =
          [(0, RuleEntry (InstrRuleBasic DoesReadAccess ShadowGenerator PREINST False)),
           (1, RuleEntry (InstrRuleBasic DoesReadAccess
                 (CallbackGenerator memReadGate_ptr MemCBInfosPtr) PREINST True))],
          instrRulesCounter = 2, curExecBlock = None, isPreInst = False\<rparr>,
       memoryLoggingLevel = 1,
       memCBInfos = [(0, ex_entry MEMORY_READ 0 1 0)],
       memCBID = 1, memReadGateCBID = 1, memWriteGateCBID = INVALID_EVENTID,
       instrCBInfos = []\<rparr>"
  by (simp add: vm_eval_defs ex_entry_def)

lemma ex_wrapped_state:
  "(register_and_delete ^^ 4294967295)
     (snd (addMemRangeCB 0 1 MEMORY_READ (Some (UserInstCallback 0)) (UserPtr 0) VM_ctor)) =
      \<lparr>engine = \<lparr>instrRules =
          [(0, RuleEntry (InstrRuleBasic DoesReadAccess ShadowGenerator PREINST False)),
           (1, RuleEntry (InstrRuleBasic DoesReadAccess
                 (CallbackGenerator memReadGate_ptr MemCBInfosPtr) PREINST True))],
          instrRulesCounter = 2, curExecBlock = None, isPreInst = False\<rparr>,
       memoryLoggingLevel = 1,
       memCBInfos = [(0, ex_entry MEMORY_READ 0 1 0)],
       memCBID = 0, memReadGateCBID = 1, memWriteGateCBID = INVALID_EVENTID,
       instrCBInfos = []\<rparr>"
proof -
  let ?s1 = "snd (addMemRangeCB 0 1 MEMORY_READ (Some (UserInstCallback 0)) (UserPtr 0) VM_ctor)"
  have a: "memCBInfos ?s1 = [(0, ex_entry MEMORY_READ 0 1 0)]"
    and b: "memReadGateCBID ?s1 \<noteq> INVALID_EVENTID"
    and c: "0 < unat (memCBID ?s1)"
    and d: "unat (memCBID ?s1) + 4294967295 \<le> 2 ^ 32"
    unfolding ex_first_registration by (simp_all add: INVALID_EVENTID_def)
  have "(register_and_delete ^^ 4294967295) ?s1 =
        ?s1\<lparr>memCBID := memCBID ?s1 + of_nat 4294967295\<rparr>"
    using a b c d by (rule register_and_delete_funpow)
  then show ?thesis unfolding ex_first_registration by simp
qed

text \<open>
  C1: the claim is that the first \<^verbatim>\<open>deleteInstrumentation(k)\<close> after a registration that
  returned \<^verbatim>\<open>k != INVALID_EVENTID\<close> returns true and every later one false. The code
  breaks it once \<^verbatim>\<open>memCBID\<close> has wrapped: \<^verbatim>\<open>memCBID++\<close> is executed before the test
  \<^verbatim>\<open>id < EVENTID_VIRTCB_MASK\<close>, also by the calls that fail it, so after \<open>2 ^ 32\<close> calls
  of \<^verbatim>\<open>addMemRangeCB\<close> the counter is 0 again. Here a first callback is registered (id 0)
  and kept, \<open>2 ^ 32 - 1\<close> more are registered and deleted again, and the next
  registration returns the id of the first one: deleting that id returns true twice.
\<close>

theorem memCB_id_reused_after_counter_wraps:
  "(let s1 = snd (addMemRangeCB 0 1 MEMORY_READ (Some (UserInstCallback 0)) (UserPtr 0) VM_ctor);
        s2 = (register_and_delete ^^ 4294967295) s1;
        r = addMemRangeCB 0 1 MEMORY_READ (Some (UserInstCallback 1)) (UserPtr 0) s2;
        d1 = deleteInstrumentation (fst r) (snd r);
        d2 = deleteInstrumentation (fst r) (snd d1)
    in fst r = 0x80000000 \<and> fst r \<noteq> INVALID_EVENTID \<and> fst d1 \<and> fst d2)"
  unfolding Let_def ex_wrapped_state
  by (simp add: addMemRangeCB_def deleteInstrumentation_def INVALID_EVENTID_def
      EVENTID_VIRTCB_MASK_def MEMORY_READ_def MEMORY_WRITE_def MEMORY_READ_WRITE_def Let_def)

text \<open>
  The round trip holds whenever the id handed out is not in the registry, which is the
  case until the counter wraps, and for the engine's ids.
\<close>

lemma memCBInfos_erase_last:
  "k \<notin> fst ` set l \<Longrightarrow> memCBInfos_erase k (l @ [(k, e)]) = Some l"
  by (induction l) auto

lemma memRangeCB_roundtrip:
  assumes "addMemRangeCB lo hi t cb d s = (k, s')" and "k \<noteq> INVALID_EVENTID"
    and fresh: "memCBID s \<notin> fst ` set (memCBInfos s)"
  shows "deleteInstrumentation k s' = (True, s'\<lparr>memCBInfos := memCBInfos s\<rparr>) \<and>
         deleteInstrumentation k (s'\<lparr>memCBInfos := memCBInfos s\<rparr>) =
           (False, s'\<lparr>memCBInfos := memCBInfos s\<rparr>)"
proof -
  from addMemRangeCB_registered [OF assms(1,2)]
  obtain f where idlt: "memCBID s < EVENTID_VIRTCB_MASK"
    and k: "k = memCBID s OR EVENTID_VIRTCB_MASK"
    and reg: "memCBInfos s' = memCBInfos s @
      [(memCBID s, \<lparr>cb_type = t, cb_range = Range_ctor lo hi, cbk = f, cb_data = d\<rparr>)]"
    by blast
  have m: "k AND EVENTID_VIRTCB_MASK \<noteq> 0" using k mask_or_and by simp
  have i: "k AND NOT EVENTID_VIRTCB_MASK = memCBID s" using k mask_or_and_not [OF idlt] by simp
  have e1: "memCBInfos_erase (memCBID s) (memCBInfos s') = Some (memCBInfos s)"
    unfolding reg using fresh by (rule memCBInfos_erase_last)
  have e2: "memCBInfos_erase (memCBID s) (memCBInfos s) = None"
    using fresh by (simp add: memCBInfos_erase_None)
  show ?thesis using m i e1 e2 by (simp add: deleteInstrumentation_def)
qed

lemma Engine_roundtrip:
  assumes "Engine_register x e = (k, e')" and "k \<noteq> INVALID_EVENTID"
  shows "fst (Engine_deleteInstrumentation k e') \<and>
         \<not> fst (Engine_deleteInstrumentation k (snd (Engine_deleteInstrumentation k e')))"
  using assms
  by (auto simp: Engine_register_def Engine_deleteInstrumentation_def list_ex_iff
      split: if_splits)

section \<open>Running to a stop address\<close>

lemma Engine_wf_init: "Engine_wf Engine_init"
  by (simp add: Engine_wf_def Engine_init_def)

lemma Engine_register_result:
  "Engine_register x e = (INVALID_EVENTID, e) \<and> \<not> instrRulesCounter e < EVENTID_VIRTCB_MASK \<or>
   Engine_register x e =
     (instrRulesCounter e,
      e\<lparr>instrRules := instrRules e @ [(instrRulesCounter e, x)],
        instrRulesCounter := instrRulesCounter e + 1\<rparr>) \<and>
   instrRulesCounter e < EVENTID_VIRTCB_MASK \<and> instrRulesCounter e < instrRulesCounter e + 1"
proof (cases "instrRulesCounter e < EVENTID_VIRTCB_MASK")
  case True
  have "instrRulesCounter e \<noteq> instrRulesCounter e + 1" by simp
  then have "instrRulesCounter e < instrRulesCounter e + 1"
    using counter_step [OF True] by (rule order_le_neq_trans [rotated])
  then show ?thesis using True by (simp add: Engine_register_def)
next
  case False
  then show ?thesis by (simp add: Engine_register_def)
qed

lemma Engine_register_wf: "Engine_wf e \<Longrightarrow> Engine_wf (snd (Engine_register x e))"
proof -
  assume wf: "Engine_wf e"
  then have old: "fst p < instrRulesCounter e" if "p \<in> set (instrRules e)" for p
    using that by (simp add: Engine_wf_def list_all_iff)
  from Engine_register_result [of x e] show ?thesis
  proof
    assume "Engine_register x e = (INVALID_EVENTID, e) \<and>
            \<not> instrRulesCounter e < EVENTID_VIRTCB_MASK"
    then show ?thesis using wf by simp
  next
    assume a: "Engine_register x e =
       (instrRulesCounter e,
        e\<lparr>instrRules := instrRules e @ [(instrRulesCounter e, x)],
          instrRulesCounter := instrRulesCounter e + 1\<rparr>) \<and>
       instrRulesCounter e < EVENTID_VIRTCB_MASK \<and>
       instrRulesCounter e < instrRulesCounter e + 1"
    then have "fst p < instrRulesCounter e + 1" if "p \<in> set (instrRules e)" for p
      using old [OF that] by (meson order_less_trans)
    then show ?thesis using a by (simp add: Engine_wf_def list_all_iff)
  qed
qed

lemma Engine_deleteInstrumentation_wf:
  "Engine_wf e \<Longrightarrow> Engine_wf (snd (Engine_deleteInstrumentation k e))"
  by (auto simp: Engine_wf_def Engine_deleteInstrumentation_def list_all_iff)

lemma VM_wf_ctor: "VM_wf VM_ctor"
  by (simp add: VM_wf_def VM_ctor_def Engine_wf_init)

lemma engine_addInstrRule_wf:
  assumes "VM_wf s"
  shows "VM_wf (snd (engine_addInstrRule r s)) \<and>
         (fst (engine_addInstrRule r s) < instrRulesCounter (engine (snd (engine_addInstrRule r s)))
          \<or> fst (engine_addInstrRule r s) = INVALID_EVENTID)"
proof -
  have e: "engine_addInstrRule r s =
    (fst (Engine_register (RuleEntry r) (engine s)),
     s\<lparr>engine := snd (Engine_register (RuleEntry r) (engine s))\<rparr>)"
    by (simp add: engine_addInstrRule_def Engine_addInstrRule_def case_prod_beta)
  show ?thesis
    using assms Engine_register_result [of "RuleEntry r" "engine s"]
      Engine_register_wf [of "engine s" "RuleEntry r"]
    unfolding e by (auto simp: VM_wf_def list_all_iff)
qed

lemma filter_ids_fresh:
  "\<forall>p \<in> set l. fst p \<noteq> k \<Longrightarrow> filter (\<lambda>p. fst p \<noteq> k) (l @ [(k, x)]) = l"
  by (induction l) auto

text \<open>
  C8: \<^verbatim>\<open>run(start, stop)\<close> first registers the rule "at address \<^verbatim>\<open>stop\<close>, before the
  instruction, call \<^verbatim>\<open>stopCallback\<close> (which returns \<^verbatim>\<open>STOP\<close>) and break to the host",
  hands the VM with that rule to the engine's run, and deletes the rule after it: the
  rule's id is no longer registered when \<^verbatim>\<open>run\<close> returns, and if the engine's run left
  the instrumentation as it found it, the instrumentation after \<^verbatim>\<open>run\<close> is the one
  before it. This is stated for a registration that succeeded, on a VM whose recorded
  ids are below the engine's counter (true of a new VM and kept by every registration
  and deletion).
\<close>

theorem run_installs_and_removes_stop_rule:
  assumes ok: "fst (addCodeAddrCB stop PREINST (Some stopCallback_ptr) (UserPtr 0) s) \<noteq>
               INVALID_EVENTID"
    and wf: "VM_wf s"
  shows "(let r = addCodeAddrCB stop PREINST (Some stopCallback_ptr) (UserPtr 0) s;
              er = engine_run start stop (snd r)
          in instrRules (engine (snd r)) = instrRules (engine s) @
               [(fst r, RuleEntry (InstrRuleBasic (AddressIs stop)
                          (CallbackGenerator stopCallback_ptr (UserPtr 0)) PREINST True))] \<and>
             memCBInfos (snd r) = memCBInfos s \<and> instrCBInfos (snd r) = instrCBInfos s \<and>
             fst (stopCallback w) = STOP \<and>
             run engine_run start stop s = (fst er, snd (deleteInstrumentation (fst r) (snd er))) \<and>
             fst r \<notin> fst ` set (instrRules (engine (snd (run engine_run start stop s)))) \<and>
             (same_instrumentation (snd er) (snd r) \<longrightarrow>
                same_instrumentation (snd (run engine_run start stop s)) s))"
proof -
  let ?R = "RuleEntry (InstrRuleBasic (AddressIs stop)
              (CallbackGenerator stopCallback_ptr (UserPtr 0)) PREINST True)"
  let ?r = "addCodeAddrCB stop PREINST (Some stopCallback_ptr) (UserPtr 0) s"
  let ?er = "engine_run start stop (snd ?r)"
  let ?k = "instrRulesCounter (engine s)"
  have r: "?r = (fst (Engine_register ?R (engine s)),
                 s\<lparr>engine := snd (Engine_register ?R (engine s))\<rparr>)"
    by (simp add: addCodeAddrCB_def engine_addInstrRule_def Engine_addInstrRule_def
        getCallbackGenerator_def case_prod_beta)
  have reg: "Engine_register ?R (engine s) =
     (?k, (engine s)\<lparr>instrRules := instrRules (engine s) @ [(?k, ?R)],
                     instrRulesCounter := ?k + 1\<rparr>)"
    and lt: "?k < EVENTID_VIRTCB_MASK"
    using ok Engine_register_result [of ?R "engine s"] unfolding r by auto
  have k: "fst ?r = ?k" and s1: "snd ?r = s\<lparr>engine := (engine s)
     \<lparr>instrRules := instrRules (engine s) @ [(?k, ?R)], instrRulesCounter := ?k + 1\<rparr>\<rparr>"
    unfolding r reg by simp_all
  have a: "instrRules (engine (snd ?r)) = instrRules (engine s) @ [(fst ?r, ?R)]"
    unfolding k s1 by simp
  have b: "memCBInfos (snd ?r) = memCBInfos s \<and> instrCBInfos (snd ?r) = instrCBInfos s \<and>
           memReadGateCBID (snd ?r) = memReadGateCBID s \<and>
           memWriteGateCBID (snd ?r) = memWriteGateCBID s"
    unfolding s1 by simp
  have c: "fst (stopCallback w) = STOP" by (simp add: stopCallback_def)
  have d: "run engine_run start stop s = (fst ?er, snd (deleteInstrumentation (fst ?r) (snd ?er)))"
    by (simp add: run_def case_prod_beta)
  have nb: "\<not> bit ?k 31" using mask_less_and [OF lt] by (simp add: mask_bit [symmetric])
  note del = deleteInstrumentation_engine [OF nb]
  have e: "fst ?r \<notin> fst ` set (instrRules (engine (snd (run engine_run start stop s))))"
    unfolding d k using del [of "snd ?er"] by auto
  have fresh1: "\<forall>p \<in> set (instrRules (engine s)). fst p \<noteq> ?k"
    using wf by (auto simp: VM_wf_def Engine_wf_def list_all_iff)
  have inv: "\<not> INVALID_EVENTID < EVENTID_VIRTCB_MASK"
    by (simp add: INVALID_EVENTID_def EVENTID_VIRTCB_MASK_def)
  have fresh2: "filter (\<lambda>p. fst p \<noteq> ?k) (instrCBInfos s) = instrCBInfos s"
  proof -
    have "fst p \<noteq> ?k" if "p \<in> set (instrCBInfos s)" for p
    proof -
      have "fst p < ?k \<or> fst p = INVALID_EVENTID"
        using wf that by (simp add: VM_wf_def list_all_iff)
      then show ?thesis using lt inv by auto
    qed
    then show ?thesis by (simp add: filter_id_conv)
  qed
  have f: "same_instrumentation (snd (run engine_run start stop s)) s"
    if h: "same_instrumentation (snd ?er) (snd ?r)"
  proof -
    have h': "instrRules (engine (snd ?er)) = instrRules (engine s) @ [(?k, ?R)]"
      "memCBInfos (snd ?er) = memCBInfos s" "instrCBInfos (snd ?er) = instrCBInfos s"
      "memReadGateCBID (snd ?er) = memReadGateCBID s"
      "memWriteGateCBID (snd ?er) = memWriteGateCBID s"
      using h a b k by (simp_all add: same_instrumentation_def)
    have g: "memReadGateCBID (snd (deleteInstrumentation ?k (snd ?er))) = memReadGateCBID s \<and>
             memWriteGateCBID (snd (deleteInstrumentation ?k (snd ?er))) = memWriteGateCBID s"
      using deleteInstrumentation_gate_ids [of ?k "snd ?er"] h' by simp
    show ?thesis
      unfolding d k using del [of "snd ?er"] h' g fresh2 filter_ids_fresh [OF fresh1, of ?R]
      by (simp add: same_instrumentation_def)
  qed
  show ?thesis
    unfolding Let_def using a b c d e f by blast
qed

lemma VM_wf_level: "VM_wf (s\<lparr>memoryLoggingLevel := l\<rparr>) = VM_wf s"
  by (simp add: VM_wf_def)

lemma VM_wf_gate_ids:
  "VM_wf (s\<lparr>memReadGateCBID := g\<rparr>) = VM_wf s" "VM_wf (s\<lparr>memWriteGateCBID := g\<rparr>) = VM_wf s"
  "VM_wf (s\<lparr>memCBID := c\<rparr>) = VM_wf s" "VM_wf (s\<lparr>memCBInfos := l\<rparr>) = VM_wf s"
  by (simp_all add: VM_wf_def)

lemma engine_addInstrRules_wf: "VM_wf s \<Longrightarrow> VM_wf (engine_addInstrRules rs s)"
  by (induction rs arbitrary: s) (simp_all add: engine_addInstrRule_wf)

lemma recordMemoryAccess_wf: "VM_wf s \<Longrightarrow> VM_wf (snd (recordMemoryAccess t s))"
  by (simp add: recordMemoryAccess_def Let_def engine_addInstrRules_wf VM_wf_level)

lemma addMemAccessCB_wf: "VM_wf s \<Longrightarrow> VM_wf (snd (addMemAccessCB t cb d s))"
proof (cases cb)
  case None
  then show "VM_wf s \<Longrightarrow> ?thesis" by (simp add: addMemAccessCB_def)
next
  case (Some f)
  assume wf: "VM_wf s"
  show ?thesis
    using addMemAccessCB_cases [of t f d s] recordMemoryAccess_wf [OF wf, of t]
      engine_addInstrRule_wf [of "snd (recordMemoryAccess t s)"]
    unfolding Some by auto
qed

lemma addMemRangeCB_wf: "VM_wf s \<Longrightarrow> VM_wf (snd (addMemRangeCB lo hi t cb d s))"
proof (cases "lo < hi \<and> t AND MEMORY_READ_WRITE \<noteq> 0 \<and> cb \<noteq> None")
  case False
  then have "snd (addMemRangeCB lo hi t cb d s) = s"
    by (auto simp: addMemRangeCB_def)
  then show "VM_wf s \<Longrightarrow> ?thesis" by simp
next
  case True
  assume wf: "VM_wf s"
  from True obtain f where f: "cb = Some f" and lt: "lo < hi"
    and ty: "t AND MEMORY_READ_WRITE \<noteq> 0"
    by auto
  define s1 where "s1 =
    (if t = MEMORY_READ \<and> memReadGateCBID s = INVALID_EVENTID then
       (case addMemAccessCB MEMORY_READ (Some memReadGate_ptr) MemCBInfosPtr s of
          (g, u) \<Rightarrow> u\<lparr>memReadGateCBID := g\<rparr>)
     else s)"
  define s2 where "s2 =
    (if t AND MEMORY_WRITE \<noteq> 0 \<and> memWriteGateCBID s1 = INVALID_EVENTID then
       (case addMemAccessCB MEMORY_READ_WRITE (Some memWriteGate_ptr) MemCBInfosPtr s1 of
          (g, u) \<Rightarrow> u\<lparr>memWriteGateCBID := g\<rparr>)
     else s1)"
  have w1: "VM_wf s1"
    using wf addMemAccessCB_wf [OF wf]
    by (simp add: s1_def case_prod_beta VM_wf_gate_ids)
  have w2: "VM_wf s2"
    using w1 addMemAccessCB_wf [OF w1]
    by (simp add: s2_def case_prod_beta VM_wf_gate_ids)
  have unf: "snd (addMemRangeCB lo hi t cb d s) =
    (if \<not> memCBID s2 < EVENTID_VIRTCB_MASK then s2\<lparr>memCBID := memCBID s2 + 1\<rparr>
     else s2\<lparr>memCBID := memCBID s2 + 1,
             memCBInfos := memCBInfos s2 @
               [(memCBID s2, \<lparr>cb_type = t, cb_range = Range_ctor lo hi, cbk = f,
                               cb_data = d\<rparr>)]\<rparr>)"
    using lt ty f by (simp add: addMemRangeCB_def Let_def s1_def [symmetric] s2_def [symmetric])
  show ?thesis
    unfolding unf using w2 by (simp add: VM_wf_def)
qed

lemma registration_wf:
  assumes "VM_wf s"
  shows "VM_wf (snd (addCodeCB pos cb d s)) \<and> VM_wf (snd (addCodeAddrCB a pos cb d s)) \<and>
         VM_wf (snd (addCodeRangeCB lo hi pos cb d s)) \<and>
         VM_wf (snd (addMnemonicCB m pos cb d s)) \<and>
         VM_wf (snd (addMemAddrCB a t cb d s)) \<and>
         VM_wf (snd (addInstrRule f ty d s)) \<and> VM_wf (snd (addInstrRuleRange lo hi f ty d s)) \<and>
         VM_wf (snd (addInstrRuleRangeSet rs f ty d s))"
  using assms engine_addInstrRule_wf [OF assms] addMemRangeCB_wf [OF assms]
  by (auto simp: addCodeCB_def addCodeAddrCB_def addCodeRangeCB_def addMnemonicCB_def
      addMemAddrCB_def addInstrRule_def addInstrRuleRange_def addInstrRuleRangeSet_def
      split: option.splits)

lemma VM_wf_append:
  assumes "VM_wf s" and "k < instrRulesCounter (engine s) \<or> k = INVALID_EVENTID"
  shows "VM_wf (s\<lparr>instrCBInfos := instrCBInfos s @ [(k, i)]\<rparr>)"
  using assms by (simp add: VM_wf_def)

lemma registrationC_wf:
  assumes "VM_wf s"
  shows "VM_wf (snd (addInstrRuleC g ty u s)) \<and> VM_wf (snd (addInstrRuleRangeC lo hi g ty u s))"
  using engine_addInstrRule_wf [OF assms]
  by (simp add: addInstrRuleC_def addInstrRuleRangeC_def addInstrRule_def addInstrRuleRange_def
      Let_def case_prod_beta VM_wf_append)

lemma addVMEventCB_wf: "VM_wf s \<Longrightarrow> VM_wf (snd (addVMEventCB m cb d s))"
proof -
  assume wf: "VM_wf s"
  have "VM_wf (s\<lparr>engine := snd (Engine_register x (engine s))\<rparr>)" for x
    using wf Engine_register_result [of x "engine s"] Engine_register_wf [of "engine s" x]
    by (auto simp: VM_wf_def list_all_iff)
  then show ?thesis
    using wf
    by (auto simp: addVMEventCB_def Engine_addVMEventCB_def case_prod_beta split: option.splits)
qed

lemma deleteInstrumentation_wf: "VM_wf s \<Longrightarrow> VM_wf (snd (deleteInstrumentation k s))"
  by (auto simp: deleteInstrumentation_def Let_def VM_wf_gate_ids VM_wf_def Engine_wf_def
      Engine_deleteInstrumentation_def list_all_iff split: option.splits)

lemma deleteAllInstrumentations_wf: "VM_wf (deleteAllInstrumentations s)"
  by (simp add: deleteAllInstrumentations_def VM_wf_def Engine_wf_def
      Engine_deleteAllInstrumentations_def)

theorem run_installs_and_removes_stop_rule_witness:
  "fst (addCodeAddrCB 0x2000 PREINST (Some stopCallback_ptr) (UserPtr 0) VM_ctor) \<noteq>
     INVALID_EVENTID \<and>
   VM_wf VM_ctor \<and>
   same_instrumentation
     (snd (engine_run_idle 0x1000 0x2000
        (snd (addCodeAddrCB 0x2000 PREINST (Some stopCallback_ptr) (UserPtr 0) VM_ctor))))
     (snd (addCodeAddrCB 0x2000 PREINST (Some stopCallback_ptr) (UserPtr 0) VM_ctor)) \<and>
   same_instrumentation (snd (run engine_run_idle 0x1000 0x2000 VM_ctor)) VM_ctor"
proof -
  have ok: "fst (addCodeAddrCB 0x2000 PREINST (Some stopCallback_ptr) (UserPtr 0) VM_ctor) \<noteq>
     INVALID_EVENTID"
    by (simp add: addCodeAddrCB_def vm_eval_defs)
  have same: "same_instrumentation
     (snd (engine_run_idle 0x1000 0x2000
        (snd (addCodeAddrCB 0x2000 PREINST (Some stopCallback_ptr) (UserPtr 0) VM_ctor))))
     (snd (addCodeAddrCB 0x2000 PREINST (Some stopCallback_ptr) (UserPtr 0) VM_ctor))"
    by (simp add: engine_run_idle_def same_instrumentation_def)
  note T = run_installs_and_removes_stop_rule [OF ok VM_wf_ctor, of engine_run_idle "0x1000",
      where w = "0::nat", unfolded Let_def]
  have "same_instrumentation (snd (run engine_run_idle 0x1000 0x2000 VM_ctor)) VM_ctor"
    using T [THEN conjunct2, THEN conjunct2, THEN conjunct2, THEN conjunct2, THEN conjunct2,
        THEN conjunct2] same
    by (rule mp)
  then show ?thesis using ok VM_wf_ctor same by (intro conjI)
qed

section \<open>The break to host sequence\<close>

text \<open>
  C9: let the encoder give the instructions the sizes of their x86-64 encodings (10
  bytes for the move of the immediate, 7 for a move between a register and the
  Context, 5 for the jump), or on x86 those of their x86 encodings (5, 6 and 5). Then
  the sequence \<^verbatim>\<open>getBreakToHost(temp)\<close> has four instructions that take 29 bytes (22 on
  x86), and, run from host address \<open>hostPC\<close>, it (i) first loads into \<open>temp\<close> the
  address \<open>hostPC\<close> plus the size of the whole sequence, which is the host address
  following the patch, (ii) stores this value into the selector of the Context, (iii)
  reloads \<open>temp\<close> from its slot of the Context, and (iv) ends with the jump to the
  epilogue, which is taken. No other register and no other slot of the Context is
  changed.
\<close>

theorem getBreakToHost_effect:
  assumes "\<forall>r i n off. sz (HostPCRel (if is_x86 then mov32ri r i else mov64ri r i) n off) =
             (if is_x86 then 5 else 10)"
    and "\<forall>r off. sz (SaveRegInst r off) = (if is_x86 then 6 else 7)"
    and "\<forall>r off. sz (LoadRegInst r off) = (if is_x86 then 6 else 7)"
    and "sz JmpEpilogueInst = 5"
  shows "length (getBreakToHost is_x86 temp) = 4 \<and>
         sum_list (map sz (getBreakToHost is_x86 temp)) = (if is_x86 then 22 else 29) \<and>
         gpr (exec_reloc sz (hd (getBreakToHost is_x86 temp)) m) temp =
           hostPC m + of_nat (sum_list (map sz (getBreakToHost is_x86 temp))) \<and>
         ctx (exec_relocs sz (getBreakToHost is_x86 temp) m) Offset_selector =
           hostPC m + of_nat (sum_list (map sz (getBreakToHost is_x86 temp))) \<and>
         gpr (exec_relocs sz (getBreakToHost is_x86 temp) m) temp = ctx m (Offset_reg temp) \<and>
         last (getBreakToHost is_x86 temp) = JmpEpilogueInst \<and>
         hostPC (exec_relocs sz (getBreakToHost is_x86 temp) m) = epilogue m \<and>
         (\<forall>r. r \<noteq> temp \<longrightarrow>
            gpr (exec_relocs sz (getBreakToHost is_x86 temp) m) r = gpr m r) \<and>
         (\<forall>off. off \<noteq> Offset_selector \<longrightarrow>
            ctx (exec_relocs sz (getBreakToHost is_x86 temp) m) off = ctx m off)"
proof (cases is_x86)
  case True
  have m: "sz (HostPCRel (mov32ri r i) n off) = 5" for r i n off
    using assms(1) True by simp
  show ?thesis
    using True m assms(2,3,4)
    by (simp add: getBreakToHost_def SaveReg_def LoadReg_def JmpEpilogue_def Let_def)
next
  case False
  have m: "sz (HostPCRel (mov64ri r i) n off) = 10" for r i n off
    using assms(1) False by simp
  show ?thesis
    using False m assms(2,3,4)
    by (simp add: getBreakToHost_def SaveReg_def LoadReg_def JmpEpilogue_def Let_def)
qed

theorem getBreakToHost_effect_witness:
  "(\<forall>r i n off. x86_64_size (HostPCRel (mov64ri r i) n off) = 10) \<and>
   (\<forall>r off. x86_64_size (SaveRegInst r off) = 7) \<and>
   (\<forall>r off. x86_64_size (LoadRegInst r off) = 7) \<and> x86_64_size JmpEpilogueInst = 5 \<and>
   sum_list (map x86_64_size (getBreakToHost False 3)) = 29 \<and>
   ctx (exec_relocs x86_64_size (getBreakToHost False 3)
     \<lparr>gpr = (\<lambda>_. 7), ctx = (\<lambda>_. 9), hostPC = 0x1000, epilogue = 0x2000\<rparr>) Offset_selector =
     0x101D \<and>
   gpr (exec_relocs x86_64_size (getBreakToHost False 3)
     \<lparr>gpr = (\<lambda>_. 7), ctx = (\<lambda>_. 9), hostPC = 0x1000, epilogue = 0x2000\<rparr>) 3 = 9 \<and>
   (\<forall>r i n off. x86_size (HostPCRel (mov32ri r i) n off) = 5) \<and>
   (\<forall>r off. x86_size (SaveRegInst r off) = 6) \<and>
   (\<forall>r off. x86_size (LoadRegInst r off) = 6) \<and> x86_size JmpEpilogueInst = 5 \<and>
   sum_list (map x86_size (getBreakToHost True 3)) = 22 \<and>
   ctx (exec_relocs x86_size (getBreakToHost True 3)
     \<lparr>gpr = (\<lambda>_. 7), ctx = (\<lambda>_. 9), hostPC = 0x1000, epilogue = 0x2000\<rparr>) Offset_selector =
     0x1016 \<and>
   gpr (exec_relocs x86_size (getBreakToHost True 3)
     \<lparr>gpr = (\<lambda>_. 7), ctx = (\<lambda>_. 9), hostPC = 0x1000, epilogue = 0x2000\<rparr>) 3 = 9"
proof -
  have a1: "\<forall>r i n off. x86_64_size (HostPCRel (if False then mov32ri r i else mov64ri r i) n off) =
             (if False then 5 else 10)"
    and a2: "\<forall>r off. x86_64_size (SaveRegInst r off) = (if False then 6 else 7)"
    and a3: "\<forall>r off. x86_64_size (LoadRegInst r off) = (if False then 6 else 7)"
    and a4: "x86_64_size JmpEpilogueInst = 5"
    by (simp_all add: x86_64_size_def)
  have b1: "\<forall>r i n off. x86_size (HostPCRel (if True then mov32ri r i else mov64ri r i) n off) =
             (if True then 5 else 10)"
    and b2: "\<forall>r off. x86_size (SaveRegInst r off) = (if True then 6 else 7)"
    and b3: "\<forall>r off. x86_size (LoadRegInst r off) = (if True then 6 else 7)"
    and b4: "x86_size JmpEpilogueInst = 5"
    by (simp_all add: x86_size_def)
  note a = getBreakToHost_effect [OF a1 a2 a3 a4, of 3
      "\<lparr>gpr = (\<lambda>_. 7), ctx = (\<lambda>_. 9), hostPC = 0x1000, epilogue = 0x2000\<rparr>"]
  note b = getBreakToHost_effect [OF b1 b2 b3 b4, of 3
      "\<lparr>gpr = (\<lambda>_. 7), ctx = (\<lambda>_. 9), hostPC = 0x1000, epilogue = 0x2000\<rparr>"]
  note c2 = conjunct2
  have as: "sum_list (map x86_64_size (getBreakToHost False 3)) = 29"
    using a [THEN c2, THEN conjunct1] by simp
  have bs: "sum_list (map x86_size (getBreakToHost True 3)) = 22"
    using b [THEN c2, THEN conjunct1] by simp
  have ac: "ctx (exec_relocs x86_64_size (getBreakToHost False 3)
     \<lparr>gpr = (\<lambda>_. 7), ctx = (\<lambda>_. 9), hostPC = 0x1000, epilogue = 0x2000\<rparr>) Offset_selector =
     0x101D"
    unfolding a [THEN c2, THEN c2, THEN c2, THEN conjunct1] as by simp
  have bc: "ctx (exec_relocs x86_size (getBreakToHost True 3)
     \<lparr>gpr = (\<lambda>_. 7), ctx = (\<lambda>_. 9), hostPC = 0x1000, epilogue = 0x2000\<rparr>) Offset_selector =
     0x1016"
    unfolding b [THEN c2, THEN c2, THEN c2, THEN conjunct1] bs by simp
  have ag: "gpr (exec_relocs x86_64_size (getBreakToHost False 3)
     \<lparr>gpr = (\<lambda>_. 7), ctx = (\<lambda>_. 9), hostPC = 0x1000, epilogue = 0x2000\<rparr>) 3 = 9"
    unfolding a [THEN c2, THEN c2, THEN c2, THEN c2, THEN conjunct1] by simp
  have bg: "gpr (exec_relocs x86_size (getBreakToHost True 3)
     \<lparr>gpr = (\<lambda>_. 7), ctx = (\<lambda>_. 9), hostPC = 0x1000, epilogue = 0x2000\<rparr>) 3 = 9"
    unfolding b [THEN c2, THEN c2, THEN c2, THEN c2, THEN conjunct1] by simp
  show ?thesis
    using a1 a2 a3 a4 b1 b2 b3 b4 as bs ac bc ag bg by simp
qed

end
